theory Spec2Isabelle
  imports Complex_Main "HOL-Library.Product_Lexorder"
begin

section \<open>Double-precision values\<close>

text \<open>
  The program computes on C doubles. A double is modelled as a real number or one
  of the three special values of IEEE 754 that the code meets: the array \<open>d\<close> starts at
  \<open>np.inf\<close>, \<open>log(0)\<close> is \<open>-inf\<close> and the logarithm of a negative number is NaN.
  Finite arithmetic is exact (no rounding, no overflow to infinity) and the two signed
  zeros are one value \<open>Fin 0\<close>.
\<close>

datatype double = Fin real | PInf | NInf | NaN

fun dadd :: "double \<Rightarrow> double \<Rightarrow> double" where
  "dadd NaN y = NaN"
| "dadd x NaN = NaN"
| "dadd (Fin a) (Fin b) = Fin (a + b)"
| "dadd PInf NInf = NaN"
| "dadd NInf PInf = NaN"
| "dadd PInf y = PInf"
| "dadd x PInf = PInf"
| "dadd NInf y = NInf"
| "dadd x NInf = NInf"

fun dneg :: "double \<Rightarrow> double" where
  "dneg (Fin a) = Fin (- a)"
| "dneg PInf = NInf"
| "dneg NInf = PInf"
| "dneg NaN = NaN"

text \<open>The sign of a double that is not NaN: \<open>-1\<close>, \<open>0\<close> or \<open>1\<close>.\<close>

fun dsgn :: "double \<Rightarrow> real" where
  "dsgn (Fin a) = sgn a"
| "dsgn PInf = 1"
| "dsgn NInf = - 1"
| "dsgn NaN = 0"

definition inf_of_sign :: "real \<Rightarrow> double" where
  "inf_of_sign s = (if s = 0 then NaN else if 0 < s then PInf else NInf)"

fun dmul :: "double \<Rightarrow> double \<Rightarrow> double" where
  "dmul NaN y = NaN"
| "dmul x NaN = NaN"
| "dmul (Fin a) (Fin b) = Fin (a * b)"
| "dmul x y = inf_of_sign (dsgn x * dsgn y)"

text \<open>
  C division (\<open>cdivision(True)\<close>): a finite value over zero is an infinity, zero over
  zero and infinity over infinity are NaN, a finite value over an infinity is zero.
\<close>

fun ddiv :: "double \<Rightarrow> double \<Rightarrow> double" where
  "ddiv NaN y = NaN"
| "ddiv x NaN = NaN"
| "ddiv (Fin a) (Fin b) = (if b = 0 then inf_of_sign (sgn a) else Fin (a / b))"
| "ddiv (Fin a) y = Fin 0"
| "ddiv x (Fin b) = inf_of_sign (dsgn x * (if b < 0 then - 1 else 1))"
| "ddiv x y = NaN"

fun dexp :: "double \<Rightarrow> double" where
  "dexp (Fin a) = Fin (exp a)"
| "dexp PInf = PInf"
| "dexp NInf = Fin 0"
| "dexp NaN = NaN"

text \<open>\<open>log\<close> of math.h: \<open>-inf\<close> at zero and NaN below zero; no error is raised.\<close>

fun dlog :: "double \<Rightarrow> double" where
  "dlog (Fin a) = (if 0 < a then Fin (ln a) else if a = 0 then NInf else NaN)"
| "dlog PInf = PInf"
| "dlog NInf = NaN"
| "dlog NaN = NaN"

text \<open>The comparison \<open>x < y\<close> of doubles: false whenever an operand is NaN.\<close>

fun dlt :: "double \<Rightarrow> double \<Rightarrow> bool" where
  "dlt NaN y = False"
| "dlt x NaN = False"
| "dlt (Fin a) (Fin b) = (a < b)"
| "dlt x PInf = (x \<noteq> PInf)"
| "dlt NInf y = (y \<noteq> NInf)"
| "dlt x y = False"

fun dle :: "double \<Rightarrow> double \<Rightarrow> bool" where
  "dle NaN y = False"
| "dle x NaN = False"
| "dle (Fin a) (Fin b) = (a \<le> b)"
| "dle x PInf = True"
| "dle NInf y = True"
| "dle x y = False"

instantiation double :: "{comm_monoid_add, one, minus, uminus, times, inverse, ord}"
begin

definition zero_double :: double where "zero_double = Fin 0"
definition one_double :: double where "one_double = Fin 1"
definition plus_double :: "double \<Rightarrow> double \<Rightarrow> double" where "plus_double = dadd"
definition uminus_double :: "double \<Rightarrow> double" where "uminus_double = dneg"
definition minus_double :: "double \<Rightarrow> double \<Rightarrow> double" where "minus_double x y = dadd x (dneg y)"
definition times_double :: "double \<Rightarrow> double \<Rightarrow> double" where "times_double = dmul"
definition divide_double :: "double \<Rightarrow> double \<Rightarrow> double" where "divide_double = ddiv"
definition inverse_double :: "double \<Rightarrow> double" where "inverse_double x = ddiv (Fin 1) x"
definition less_double :: "double \<Rightarrow> double \<Rightarrow> bool" where "less_double = dlt"
definition less_eq_double :: "double \<Rightarrow> double \<Rightarrow> bool" where "less_eq_double = dle"

instance
proof
  fix a b c :: double
  show "a + b + c = a + (b + c)"
    by (cases a; cases b; cases c) (simp_all add: plus_double_def)
  show "a + b = b + a"
    by (cases a; cases b) (simp_all add: plus_double_def)
  show "0 + a = a"
    by (cases a) (simp_all add: plus_double_def zero_double_def)
qed

end

section \<open>The arrays and the failures of the compiled code\<close>

text \<open>
  The functions are compiled with \<open>boundscheck(False)\<close> and \<open>wraparound(False)\<close>: an
  index outside an array is not checked and not wrapped, the C code reads or writes
  whatever lies there. The model stops at such an access with \<open>OutOfBounds\<close>.
  \<open>ValueError\<close> is the exception numpy raises when the shapes of a product do not
  fit, \<open>IndexError\<close> the one of a checked index out of range.
\<close>

datatype error = ValueError | IndexError | OutOfBounds

definition in_bounds :: "int \<Rightarrow> nat \<Rightarrow> bool" where
  "in_bounds i n = (0 \<le> i \<and> i < int n)"

text \<open>\<open>np.sum\<close> of a vector, and the number of columns of a matrix given by its rows.\<close>

definition np_sum :: "double list \<Rightarrow> double" where
  "np_sum xs = sum_list xs"

definition ncols :: "double list list \<Rightarrow> nat" where
  "ncols A = (case A of [] \<Rightarrow> 0 | r # _ \<Rightarrow> length r)"

text \<open>
  \<open>A.T.dot(Fv)\<close>: the vector whose entry \<open>k\<close> is the sum over the rows \<open>j\<close> of
  \<open>A[j,k] * Fv[j]\<close>; numpy raises ValueError unless \<open>A\<close> has as many rows as \<open>Fv\<close>
  has entries.
\<close>

definition dot_T :: "double list list \<Rightarrow> double list \<Rightarrow> error + double list" where
  "dot_T A Fv =
     (if length A \<noteq> length Fv then Inl ValueError
      else Inr (map (\<lambda>k. np_sum (map (\<lambda>j. A ! j ! k * Fv ! j) [0..<length A])) [0..<ncols A]))"

section \<open>The log-likelihood \<open>mv_exp_ll\<close>\<close>

text \<open>
  The arrays and the scalar variables that \<open>mv_exp_ll\<close> declares and updates in place.
\<close>

record ll_state =
  phi :: "double list"
  d :: "double list"
  ed :: "double list"
  F :: "double list"
  lJ :: double
  lda :: double
  dot :: double

text \<open>The statements for the first event (\<open># for t0\<close>).\<close>

definition first_event ::
  "double list \<Rightarrow> int list \<Rightarrow> double list \<Rightarrow> double \<Rightarrow> double \<Rightarrow> ll_state \<Rightarrow> error + ll_state" where
  "first_event t c mu theta T s =
     (if t = [] \<or> c = [] then Inl OutOfBounds
      else let c0 = c ! 0 in
        if \<not> in_bounds c0 (length (F s)) \<or> \<not> in_bounds c0 (length mu) then Inl OutOfBounds
        else Inr (s\<lparr>F := (F s)[nat c0 := F s ! nat c0 + (1 - dexp (- theta * (T - t ! 0)))],
                   lJ := dlog (mu ! nat c0),
                   d := (d s)[nat c0 := 0]\<rparr>))"

text \<open>The inner loop \<open>for k in range(K)\<close> of one event, \<open>dt\<close> being \<open>ti - t[i-1]\<close>.\<close>

fun decay_loop ::
  "double list list \<Rightarrow> double \<Rightarrow> double \<Rightarrow> int \<Rightarrow> nat list \<Rightarrow> ll_state \<Rightarrow> error + ll_state" where
  "decay_loop A theta dt ci [] s = Inr s"
| "decay_loop A theta dt ci (k # ks) s =
     (let dk = d s ! k + dt;
          edk = dexp (- theta * dk);
          phik = edk * (1 + phi s ! k)
      in if \<not> (k < length A \<and> in_bounds ci (length (A ! k))) then Inl OutOfBounds
         else decay_loop A theta dt ci ks
                (s\<lparr>d := (d s)[k := dk], ed := (ed s)[k := edk], phi := (phi s)[k := phik],
                   dot := dot s + A ! k ! nat ci * phik\<rparr>))"

text \<open>The body of \<open>for i in range(1, N)\<close>.\<close>

definition event_step ::
  "double list \<Rightarrow> int list \<Rightarrow> double list \<Rightarrow> double list list \<Rightarrow> double \<Rightarrow> double \<Rightarrow> nat
     \<Rightarrow> nat \<Rightarrow> ll_state \<Rightarrow> error + ll_state" where
  "event_step t c mu A theta T K i s =
     (if \<not> i < length c then Inl OutOfBounds
      else let ci = c ! i; ti = t ! i in
        case decay_loop A theta (ti - t ! (i - 1)) ci [0..<K] (s\<lparr>dot := 0\<rparr>) of
          Inl e \<Rightarrow> Inl e
        | Inr s' \<Rightarrow>
            if \<not> in_bounds ci (length mu) \<or> \<not> in_bounds ci K then Inl OutOfBounds
            else let l = mu ! nat ci + theta * dot s' in
              Inr (s'\<lparr>lda := l,
                       F := (F s')[nat ci := F s' ! nat ci + (1 - dexp (- theta * (T - ti)))],
                       lJ := lJ s' + dlog l,
                       d := (d s')[nat ci := 0]\<rparr>))"

fun event_loop ::
  "double list \<Rightarrow> int list \<Rightarrow> double list \<Rightarrow> double list list \<Rightarrow> double \<Rightarrow> double \<Rightarrow> nat
     \<Rightarrow> nat list \<Rightarrow> ll_state \<Rightarrow> error + ll_state" where
  "event_loop t c mu A theta T K [] s = Inr s"
| "event_loop t c mu A theta T K (i # is) s =
     (case event_step t c mu A theta T K i s of
        Inl e \<Rightarrow> Inl e
      | Inr s' \<Rightarrow> event_loop t c mu A theta T K is s')"

text \<open>
  The declarations: \<open>K\<close> is \<open>np.unique(c).shape[0]\<close>, the number of distinct marks of
  the realization, and the four arrays have \<open>K\<close> entries.
\<close>

definition ll_init :: "nat \<Rightarrow> ll_state" where
  "ll_init K = \<lparr>phi = replicate K 0, d = replicate K PInf, ed = replicate K 0,
                F = replicate K 0, lJ = 0, lda = 0, dot = 0\<rparr>"

text \<open>
  The \<open>with nogil\<close> block stopped after the event \<open>n - 1\<close>: the first event, then the
  loop over \<open>range(1, n)\<close>. The whole block is \<open>ll_events\<close> at \<open>n = N\<close>.
\<close>

definition ll_events ::
  "double list \<Rightarrow> int list \<Rightarrow> double list \<Rightarrow> double list list \<Rightarrow> double \<Rightarrow> double \<Rightarrow> nat
     \<Rightarrow> error + ll_state" where
  "ll_events t c mu A theta T n =
     (let K = length (remdups c) in
      case first_event t c mu theta T (ll_init K) of
        Inl e \<Rightarrow> Inl e
      | Inr s \<Rightarrow> event_loop t c mu A theta T K [1..<n] s)"

definition ll_pass ::
  "double list \<Rightarrow> int list \<Rightarrow> double list \<Rightarrow> double list list \<Rightarrow> double \<Rightarrow> double
     \<Rightarrow> error + ll_state" where
  "ll_pass t c mu A theta T = ll_events t c mu A theta T (length t)"

text \<open>The whole function, with \<open>return lJ + -np.sum(mu * T) - np.sum(A.T.dot(F))\<close>.\<close>

definition mv_exp_ll ::
  "double list \<Rightarrow> int list \<Rightarrow> double list \<Rightarrow> double list list \<Rightarrow> double \<Rightarrow> double
     \<Rightarrow> error + double" where
  "mv_exp_ll t c mu A theta T =
     (case ll_pass t c mu A theta T of
        Inl e \<Rightarrow> Inl e
      | Inr s \<Rightarrow>
          (case dot_T A (F s) of
             Inl e \<Rightarrow> Inl e
           | Inr v \<Rightarrow> Inr (lJ s + - np_sum (map (\<lambda>m. m * T) mu) - np_sum v)))"

text \<open>
  The inputs on which the shapes of the arrays fit the \<open>K\<close> of the code: at least one
  event, a mark for every time, every mark of an event in \<open>[0, K)\<close> and an index of
  \<open>mu\<close>, and \<open>A\<close> of shape \<open>(K, K)\<close>, for \<open>K\<close> the number of distinct marks. When \<open>mu\<close>
  has \<open>K\<close> entries this says that every process has an event in the realization.
\<close>

definition shapes_ok :: "double list \<Rightarrow> int list \<Rightarrow> double list \<Rightarrow> double list list \<Rightarrow> bool" where
  "shapes_ok t c mu A =
     (let K = length (remdups c) in
      t \<noteq> [] \<and> length t \<le> length c \<and>
      (\<forall>i<length t. in_bounds (c ! i) K \<and> in_bounds (c ! i) (length mu)) \<and>
      length A = K \<and> (\<forall>r\<in>set A. length r = K))"

text \<open>
  The value the specification gives for the result, from the state \<open>s\<close> at the end of the
  pass: the running total minus the sum of \<open>mu[k] * T\<close> minus the sum over \<open>j\<close> and
  \<open>k\<close> of \<open>A[j,k] * F[k]\<close>.
\<close>

definition spec_final_value :: "ll_state \<Rightarrow> double list \<Rightarrow> double list list \<Rightarrow> double \<Rightarrow> double" where
  "spec_final_value s mu A T =
     lJ s - (\<Sum>k<length mu. mu ! k * T) - (\<Sum>j<length A. \<Sum>k<length A. A ! j ! k * F s ! k)"

text \<open>
  The recursion in the words of the specification, for \<open>K\<close> processes: the first event
  adds to \<open>F[c0]\<close>, seeds the running total with \<open>log(mu[c0])\<close> and sets \<open>d[c0] = 0\<close>;
  each later event advances every \<open>d[k]\<close> by the elapsed time, recomputes \<open>ed[k]\<close>, updates
  \<open>phi[k]\<close> to \<open>ed[k] * (1 + phi[k])\<close>, forms \<open>dot\<close> and \<open>lambda\<close>, adds \<open>log(lambda)\<close> to the
  running total, adds to \<open>F[ci]\<close> and resets \<open>d[ci]\<close>. The specification takes \<open>K\<close> to be
  the length of \<open>mu\<close>.
\<close>

definition spec_first ::
  "double list \<Rightarrow> int list \<Rightarrow> double list \<Rightarrow> double \<Rightarrow> double \<Rightarrow> nat \<Rightarrow> ll_state" where
  "spec_first t c mu theta T K =
     (let c0 = nat (c ! 0) in
      \<lparr>phi = replicate K 0,
       d = (replicate K PInf)[c0 := 0],
       ed = replicate K 0,
       F = (replicate K 0)[c0 := 0 + (1 - dexp (- theta * (T - t ! 0)))],
       lJ = dlog (mu ! c0), lda = 0, dot = 0\<rparr>)"

definition spec_step ::
  "double list \<Rightarrow> int list \<Rightarrow> double list \<Rightarrow> double list list \<Rightarrow> double \<Rightarrow> double \<Rightarrow> nat
     \<Rightarrow> ll_state \<Rightarrow> nat \<Rightarrow> ll_state" where
  "spec_step t c mu A theta T K s i =
     (let ci = nat (c ! i); ti = t ! i;
          d1 = map (\<lambda>k. d s ! k + (ti - t ! (i - 1))) [0..<K];
          ed1 = map (\<lambda>k. dexp (- theta * d1 ! k)) [0..<K];
          phi1 = map (\<lambda>k. ed1 ! k * (1 + phi s ! k)) [0..<K];
          dot1 = (\<Sum>k<K. A ! k ! ci * phi1 ! k);
          lambda = mu ! ci + theta * dot1
      in \<lparr>phi = phi1, d = d1[ci := 0], ed = ed1,
          F = (F s)[ci := F s ! ci + (1 - dexp (- theta * (T - ti)))],
          lJ = lJ s + dlog lambda, lda = lambda, dot = dot1\<rparr>)"

definition spec_pass ::
  "double list \<Rightarrow> int list \<Rightarrow> double list \<Rightarrow> double list list \<Rightarrow> double \<Rightarrow> double \<Rightarrow> ll_state" where
  "spec_pass t c mu A theta T =
     foldl (spec_step t c mu A theta T (length mu)) (spec_first t c mu theta T (length mu))
       [1..<length t]"

text \<open>
  The direct evaluation of the log-likelihood over the reals, by sums over pairs of
  events: the intensity of the process \<open>cs ! i\<close> at the event \<open>i\<close> is its background rate
  plus \<open>theta\<close> times the sum, over the earlier events \<open>j\<close>, of \<open>A[c\<^sub>j, c\<^sub>i]\<close> times the
  kernel \<open>exp (- theta * (t\<^sub>i - t\<^sub>j))\<close>; the compensator is the integral of the
  intensities over \<open>[0, T]\<close>.
\<close>

definition intensity ::
  "real list \<Rightarrow> nat list \<Rightarrow> real list \<Rightarrow> real list list \<Rightarrow> real \<Rightarrow> nat \<Rightarrow> real" where
  "intensity ts cs mu A theta i =
     mu ! (cs ! i) + theta * (\<Sum>j<i. A ! (cs ! j) ! (cs ! i) * exp (- theta * (ts ! i - ts ! j)))"

definition brute_force_ll ::
  "real list \<Rightarrow> nat list \<Rightarrow> real list \<Rightarrow> real list list \<Rightarrow> real \<Rightarrow> real \<Rightarrow> real" where
  "brute_force_ll ts cs mu A theta T =
     (\<Sum>i<length ts. ln (intensity ts cs mu A theta i))
     - (\<Sum>k<length mu. mu ! k * T)
     - (\<Sum>i<length ts. \<Sum>k<length mu. A ! (cs ! i) ! k * (1 - exp (- theta * (T - ts ! i))))"

section \<open>The random sources\<close>

text \<open>
  The samplers draw from the generator of numpy (\<open>np.random.poisson\<close>,
  \<open>np.random.rand\<close>) and from \<open>rand()\<close> of the C library. A source is the sequence of
  the values its next calls return: \<open>pois g n lam\<close> is the count that the \<open>n\<close>-th next
  call of \<open>np.random.poisson\<close> returns when its mean is \<open>lam\<close>, \<open>unif g n\<close> the \<open>n\<close>-th
  next uniform value of \<open>np.random.rand\<close>, \<open>crand g n\<close> the \<open>n\<close>-th next value of
  \<open>rand()\<close>. A call takes the values it returns off the front. The laws of the draws
  are not modelled, and neither is the ValueError of \<open>np.random.poisson\<close> on a negative
  mean: a count is returned for every mean.
\<close>

record rng =
  pois :: "nat \<Rightarrow> double \<Rightarrow> nat"
  unif :: "nat \<Rightarrow> real"
  crand :: "nat \<Rightarrow> nat"

definition np_random_poisson :: "rng \<Rightarrow> double \<Rightarrow> nat \<times> rng" where
  "np_random_poisson g lam = (pois g 0 lam, g\<lparr>pois := \<lambda>n. pois g (Suc n)\<rparr>)"

definition np_random_rand :: "rng \<Rightarrow> nat \<Rightarrow> double list \<times> rng" where
  "np_random_rand g n = (map (\<lambda>i. Fin (unif g i)) [0..<n], g\<lparr>unif := \<lambda>i. unif g (n + i)\<rparr>)"

definition rand :: "rng \<Rightarrow> nat \<times> rng" where
  "rand g = (crand g 0, g\<lparr>crand := \<lambda>n. crand g (Suc n)\<rparr>)"

text \<open>
  What the libraries promise of the sources: \<open>rand()\<close> is between \<open>0\<close> and \<open>RAND_MAX\<close>
  inclusive, \<open>RAND_MAX\<close> is positive, and \<open>np.random.rand\<close> is in \<open>[0, 1)\<close>.
\<close>

definition rng_ok :: "nat \<Rightarrow> rng \<Rightarrow> bool" where
  "rng_ok RAND_MAX g =
     (0 < RAND_MAX \<and> (\<forall>n. crand g n \<le> RAND_MAX) \<and> (\<forall>n. 0 \<le> unif g n \<and> unif g n < 1))"

text \<open>\<open>uu\<close>: \<open><double> rand() / RAND_MAX\<close>.\<close>

definition uu :: "nat \<Rightarrow> rng \<Rightarrow> double \<times> rng" where
  "uu RAND_MAX g = (let (r, g') = rand g in (Fin (real r) / Fin (real RAND_MAX), g'))"

section \<open>The offspring of one event: \<open>_get_mv_offspring\<close>\<close>

text \<open>The loop \<open>for j in range(Nk)\<close>, which appends to the vectors \<open>tos\<close> and \<open>cos\<close>.\<close>

fun draw_children ::
  "nat \<Rightarrow> double \<Rightarrow> double \<Rightarrow> int \<Rightarrow> nat \<Rightarrow> rng \<Rightarrow> double list \<times> int list
     \<Rightarrow> (double list \<times> int list) \<times> rng" where
  "draw_children RAND_MAX theta t k 0 g (tos, cos') = ((tos, cos'), g)"
| "draw_children RAND_MAX theta t k (Suc j) g (tos, cos') =
     (let (u, g') = uu RAND_MAX g;
          tt = - dlog u / theta + t
      in draw_children RAND_MAX theta t k j g' (tos @ [tt], cos' @ [k]))"

text \<open>The loop \<open>for k in range(K)\<close>.\<close>

fun offspring_loop ::
  "nat \<Rightarrow> double list \<Rightarrow> double \<Rightarrow> double \<Rightarrow> nat list \<Rightarrow> rng \<Rightarrow> double list \<times> int list
     \<Rightarrow> (double list \<times> int list) \<times> rng" where
  "offspring_loop RAND_MAX Acp theta t [] g acc = (acc, g)"
| "offspring_loop RAND_MAX Acp theta t (k # ks) g acc =
     (let (Nk, g1) = np_random_poisson g (Acp ! k);
          (acc', g2) = draw_children RAND_MAX theta t (int k) Nk g1 acc
      in offspring_loop RAND_MAX Acp theta t ks g2 acc')"

text \<open>Indexing an array by a boolean mask, as in \<open>tres[tres < T]\<close>.\<close>

definition np_mask :: "'a list \<Rightarrow> bool list \<Rightarrow> 'a list" where
  "np_mask xs m = map fst (filter snd (zip xs m))"

definition get_mv_offspring ::
  "nat \<Rightarrow> rng \<Rightarrow> double \<Rightarrow> double list \<Rightarrow> double \<Rightarrow> double \<Rightarrow> (double list \<times> int list) \<times> rng" where
  "get_mv_offspring RAND_MAX g t Acp theta T =
     (let K = length Acp;
          ((tos, cos'), g') = offspring_loop RAND_MAX Acp theta t [0..<K] g ([], []);
          tres = tos;
          cres = cos';
          m = map (\<lambda>x. x < T) tres
      in ((np_mask tres m, np_mask cres m), g'))"

text \<open>
  The candidates in the words of the specification: for each process \<open>k\<close>, \<open>n\<^sub>k\<close> children
  with the mark \<open>k\<close>, the count \<open>n\<^sub>k\<close> drawn with the mean \<open>Acp[k]\<close>, each at the time of
  the parent plus the offset \<open>- ln U / theta\<close>, the uniform values \<open>U\<close> taken in turn.
\<close>

definition n_children :: "rng \<Rightarrow> double list \<Rightarrow> nat \<Rightarrow> nat" where
  "n_children g Acp k = pois g k (Acp ! k)"

definition child_time :: "nat \<Rightarrow> rng \<Rightarrow> double \<Rightarrow> double \<Rightarrow> nat \<Rightarrow> double" where
  "child_time RAND_MAX g theta t i =
     t + (- dlog (Fin (real (crand g i)) / Fin (real RAND_MAX)) / theta)"

definition candidates :: "nat \<Rightarrow> rng \<Rightarrow> double \<Rightarrow> double list \<Rightarrow> double \<Rightarrow> (double \<times> int) list" where
  "candidates RAND_MAX g t Acp theta =
     concat (map (\<lambda>k. map (\<lambda>j. (child_time RAND_MAX g theta t ((\<Sum>k'<k. n_children g Acp k') + j), int k))
                         [0..<n_children g Acp k])
                 [0..<length Acp])"

section \<open>The branching sampler \<open>mv_exp_sample_branching\<close>\<close>

text \<open>The first loop \<open>for k in range(K)\<close>: the immigrants of every process.\<close>

fun immigrants ::
  "double \<Rightarrow> double list \<Rightarrow> nat list \<Rightarrow> rng \<Rightarrow> double list \<times> int list
     \<Rightarrow> (double list \<times> int list) \<times> rng" where
  "immigrants T mu [] g (curr_P, curr_C) = ((curr_P, curr_C), g)"
| "immigrants T mu (k # ks) g (curr_P, curr_C) =
     (let (Nk0, g1) = np_random_poisson g (mu ! k * T);
          (r, g2) = np_random_rand g1 Nk0;
          Pk0 = map (\<lambda>x. x * T) r;
          Ck0 = replicate (length Pk0) (int k)
      in immigrants T mu ks g2 (curr_P @ Pk0, curr_C @ Ck0))"

text \<open>
  \<open>A[ci, :]\<close> is an index checked by numpy: a negative \<open>ci\<close> counts from the last row and
  a row that does not exist is an IndexError.
\<close>

definition np_row :: "double list list \<Rightarrow> int \<Rightarrow> error + double list" where
  "np_row A ci =
     (let n = int (length A) in
      if 0 \<le> ci \<and> ci < n then Inr (A ! nat ci)
      else if - n \<le> ci \<and> ci < 0 then Inr (A ! nat (n + ci))
      else Inl IndexError)"

text \<open>The loop \<open>for i in range(len(curr_P))\<close> over the events of one generation.\<close>

fun generation ::
  "nat \<Rightarrow> double list list \<Rightarrow> double \<Rightarrow> double \<Rightarrow> (double \<times> int) list \<Rightarrow> rng
     \<Rightarrow> double list list \<times> int list list
     \<Rightarrow> error + ((double list list \<times> int list list) \<times> rng)" where
  "generation RAND_MAX A theta T [] g (os_P, os_C) = Inr ((os_P, os_C), g)"
| "generation RAND_MAX A theta T ((p, ci) # rest) g (os_P, os_C) =
     (case np_row A ci of
        Inl e \<Rightarrow> Inl e
      | Inr Acp \<Rightarrow>
          (let ((tres, cres), g') = get_mv_offspring RAND_MAX g p Acp theta T
           in generation RAND_MAX A theta T rest g' (os_P @ [tres], os_C @ [cres])))"

text \<open>
  The loop \<open>while curr_P.shape[0] > 0\<close>. Nothing bounds the number of generations, so
  the loop may run forever: the result is \<open>None\<close> then.
\<close>

partial_function (option) branching_loop ::
  "nat \<Rightarrow> double list list \<Rightarrow> double \<Rightarrow> double \<Rightarrow> double list \<Rightarrow> int list
     \<Rightarrow> double list \<Rightarrow> int list \<Rightarrow> rng
     \<Rightarrow> (error + ((double list \<times> int list) \<times> rng)) option" where
  "branching_loop RAND_MAX A theta T P C curr_P curr_C g =
     (if 0 < length curr_P then
        (case generation RAND_MAX A theta T (zip curr_P curr_C) g ([], []) of
           Inl e \<Rightarrow> Some (Inl e)
         | Inr ((os_P, os_C), g') \<Rightarrow>
             branching_loop RAND_MAX A theta T (P @ curr_P) (C @ curr_C)
               (concat os_P) (concat os_C) g')
      else Some (Inr ((P, C), g)))"

text \<open>
  \<open>np.argsort(P, kind="mergesort")\<close>: the indices of \<open>P\<close> in the order of their
  values, NaN last, equal values in the order of their indices (the sort is stable).
\<close>

definition np_key :: "double \<Rightarrow> nat \<times> real" where
  "np_key x = (case x of NInf \<Rightarrow> (0, 0) | Fin r \<Rightarrow> (1, r) | PInf \<Rightarrow> (2, 0) | NaN \<Rightarrow> (3, 0))"

definition np_argsort :: "double list \<Rightarrow> nat list" where
  "np_argsort P = sort_key (\<lambda>i. np_key (P ! i)) [0..<length P]"

definition np_take :: "'a list \<Rightarrow> nat list \<Rightarrow> 'a list" where
  "np_take xs six = map (\<lambda>i. xs ! i) six"

text \<open>The generations of the sampler, before the sort: the arrays \<open>P\<close> and \<open>C\<close>.\<close>

definition all_generations ::
  "nat \<Rightarrow> rng \<Rightarrow> double \<Rightarrow> double list \<Rightarrow> double list list \<Rightarrow> double
     \<Rightarrow> (error + ((double list \<times> int list) \<times> rng)) option" where
  "all_generations RAND_MAX g T mu A theta =
     (let K = length mu;
          ((curr_P, curr_C), g1) = immigrants T mu [0..<K] g ([], [])
      in branching_loop RAND_MAX A theta T [] [] curr_P curr_C g1)"

definition mv_exp_sample_branching ::
  "nat \<Rightarrow> rng \<Rightarrow> double \<Rightarrow> double list \<Rightarrow> double list list \<Rightarrow> double
     \<Rightarrow> (error + ((double list \<times> int list) \<times> rng)) option" where
  "mv_exp_sample_branching RAND_MAX g T mu A theta =
     (case all_generations RAND_MAX g T mu A theta of
        None \<Rightarrow> None
      | Some (Inl e) \<Rightarrow> Some (Inl e)
      | Some (Inr ((P, C), g')) \<Rightarrow>
          (let six = np_argsort P in Some (Inr ((np_take P six, np_take C six), g'))))"

section \<open>Arithmetic of doubles\<close>

lemma Fin_arith [simp]:
  "Fin a + Fin b = Fin (a + b)"
  "Fin a - Fin b = Fin (a - b)"
  "Fin a * Fin b = Fin (a * b)"
  "- Fin a = Fin (- a)"
  "(0::double) = Fin 0"
  "(1::double) = Fin 1"
  by (simp_all add: plus_double_def minus_double_def times_double_def uminus_double_def
      zero_double_def one_double_def)

lemma double_diff_conv: "x + - y = x - (y::double)"
  by (simp add: plus_double_def minus_double_def uminus_double_def)

lemma double_return_Fin: "x + Fin (- a) - Fin 0 = x - Fin a"
  by (cases x) (simp_all add: minus_double_def plus_double_def)

lemma nlog_add:
  assumes "1 \<le> n"
  shows "Fin (real n) * dlog (Fin m) + dlog (Fin m) = Fin (real (Suc n)) * dlog (Fin m)"
  using assms by (simp add: times_double_def plus_double_def inf_of_sign_def algebra_simps)

section \<open>The pass over the events returns when the shapes fit\<close>

lemma decay_loop_ok:
  assumes "\<forall>k\<in>set ks. k < length A \<and> in_bounds ci (length (A ! k))"
  shows "\<exists>s'. decay_loop A theta dt ci ks s = Inr s' \<and> length (phi s') = length (phi s) \<and>
           length (d s') = length (d s) \<and> F s' = F s \<and> lJ s' = lJ s"
  using assms
proof (induction ks arbitrary: s)
  case Nil
  then show ?case by simp
next
  case (Cons k ks)
  let ?s1 = "s\<lparr>d := (d s)[k := d s ! k + dt], ed := (ed s)[k := dexp (- theta * (d s ! k + dt))],
       phi := (phi s)[k := dexp (- theta * (d s ! k + dt)) * (1 + phi s ! k)],
       dot := dot s + A ! k ! nat ci * (dexp (- theta * (d s ! k + dt)) * (1 + phi s ! k))\<rparr>"
  from Cons.prems have ks: "\<forall>k\<in>set ks. k < length A \<and> in_bounds ci (length (A ! k))"
    and k: "k < length A" "in_bounds ci (length (A ! k))" by simp_all
  from Cons.IH[OF ks, of ?s1] obtain s' where
    "decay_loop A theta dt ci ks ?s1 = Inr s'" "length (phi s') = length (phi ?s1)"
    "length (d s') = length (d ?s1)" "F s' = F ?s1" "lJ s' = lJ ?s1" by blast
  with k show ?case by (simp add: Let_def)
qed

lemma event_step_ok:
  assumes "i < length c" "in_bounds (c ! i) K" "in_bounds (c ! i) (length mu)"
    "K \<le> length A" "\<forall>r\<in>set A. in_bounds (c ! i) (length r)"
  shows "\<exists>s'. event_step t c mu A theta T K i s = Inr s' \<and> length (phi s') = length (phi s) \<and>
           length (d s') = length (d s) \<and> length (F s') = length (F s) \<and>
           lJ s' = lJ s + dlog (lda s')"
proof -
  have "\<forall>k\<in>set [0..<K]. k < length A \<and> in_bounds (c ! i) (length (A ! k))"
    using assms(4,5) by auto
  from decay_loop_ok[OF this, of theta "t ! i - t ! (i - 1)" "s\<lparr>dot := 0\<rparr>"]
  obtain s1 where s1: "decay_loop A theta (t ! i - t ! (i - 1)) (c ! i) [0..<K] (s\<lparr>dot := 0\<rparr>) = Inr s1"
    "length (phi s1) = length (phi s)" "length (d s1) = length (d s)" "F s1 = F s" "lJ s1 = lJ s"
    by auto
  show ?thesis using assms(1-3) s1 by (simp add: event_step_def Let_def)
qed

lemma event_loop_ok:
  assumes "\<forall>i\<in>set js. i < length c \<and> in_bounds (c ! i) K \<and> in_bounds (c ! i) (length mu) \<and>
             (\<forall>r\<in>set A. in_bounds (c ! i) (length r))" "K \<le> length A"
  shows "\<exists>s'. event_loop t c mu A theta T K js s = Inr s' \<and> length (phi s') = length (phi s) \<and>
           length (d s') = length (d s) \<and> length (F s') = length (F s)"
  using assms
proof (induction js arbitrary: s)
  case Nil
  then show ?case by simp
next
  case (Cons i js)
  from Cons.prems have i: "i < length c" "in_bounds (c ! i) K" "in_bounds (c ! i) (length mu)"
    "\<forall>r\<in>set A. in_bounds (c ! i) (length r)" by simp_all
  from event_step_ok[OF i(1-3) Cons.prems(2) i(4), of t theta T s]
  obtain s1 where s1: "event_step t c mu A theta T K i s = Inr s1" "length (phi s1) = length (phi s)"
    "length (d s1) = length (d s)" "length (F s1) = length (F s)" by blast
  from Cons.IH[of s1] Cons.prems obtain s' where
    "event_loop t c mu A theta T K js s1 = Inr s'" "length (phi s') = length (phi s1)"
    "length (d s') = length (d s1)" "length (F s') = length (F s1)" by auto
  with s1 show ?case by simp
qed

lemma first_event_ok:
  assumes "t \<noteq> []" "c \<noteq> []" "in_bounds (c ! 0) K" "in_bounds (c ! 0) (length mu)"
  shows "\<exists>s. first_event t c mu theta T (ll_init K) = Inr s \<and> length (phi s) = K \<and>
           length (d s) = K \<and> length (F s) = K \<and> lJ s = dlog (mu ! nat (c ! 0))"
  using assms by (simp add: first_event_def ll_init_def Let_def)

lemma ll_events_ok:
  assumes "shapes_ok t c mu A" "n \<le> length t"
  shows "\<exists>s. ll_events t c mu A theta T n = Inr s \<and> length (F s) = length (remdups c)"
proof -
  let ?K = "length (remdups c)"
  from assms(1) have sh: "t \<noteq> []" "length t \<le> length c"
    "\<forall>i<length t. in_bounds (c ! i) ?K \<and> in_bounds (c ! i) (length mu)"
    "length A = ?K" "\<forall>r\<in>set A. length r = ?K"
    by (simp_all add: shapes_ok_def Let_def)
  then have c: "c \<noteq> []" by auto
  from sh(1,3) have c0: "in_bounds (c ! 0) ?K" "in_bounds (c ! 0) (length mu)" by auto
  from first_event_ok[OF sh(1) c c0, of theta T] obtain s1 where
    s1: "first_event t c mu theta T (ll_init ?K) = Inr s1" "length (F s1) = ?K" by blast
  have "\<forall>i\<in>set [1..<n]. i < length c \<and> in_bounds (c ! i) ?K \<and> in_bounds (c ! i) (length mu) \<and>
             (\<forall>r\<in>set A. in_bounds (c ! i) (length r))"
    using sh assms(2) by (auto simp: in_bounds_def)
  from event_loop_ok[OF this, of t theta T s1] sh(4) obtain s where
    "event_loop t c mu A theta T ?K [1..<n] s1 = Inr s" "length (F s) = length (F s1)" by auto
  with s1 show ?thesis by (simp add: ll_events_def Let_def)
qed

section \<open>One process without excitation\<close>

lemma event_step_K1:
  assumes "phi s = [Fin p]" "d s = [Fin x]" "F s = [Fin f]"
    and "i < length c" "c ! i = 0" "t ! i = Fin a" "t ! (i - 1) = Fin b"
  shows "\<exists>s' p' x' f'. event_step t c [Fin m] [[Fin 0]] (Fin th) (Fin Tr) 1 i s = Inr s' \<and>
           phi s' = [Fin p'] \<and> d s' = [Fin x'] \<and> F s' = [Fin f'] \<and>
           lJ s' = lJ s + dlog (Fin m)"
  using assms by (simp add: event_step_def Let_def in_bounds_def)

lemma event_loop_K1:
  assumes "phi s = [Fin p]" "d s = [Fin x]" "F s = [Fin f]" "lJ s = Fin (real n) * dlog (Fin m)"
    and "1 \<le> n"
    and "\<forall>i\<in>set js. i < length c \<and> c ! i = 0 \<and> (\<exists>a. t ! i = Fin a) \<and> (\<exists>b. t ! (i - 1) = Fin b)"
  shows "\<exists>s' f'. event_loop t c [Fin m] [[Fin 0]] (Fin th) (Fin Tr) 1 js s = Inr s' \<and>
           F s' = [Fin f'] \<and> lJ s' = Fin (real (n + length js)) * dlog (Fin m)"
  using assms
proof (induction js arbitrary: s p x f n)
  case Nil
  then show ?case by simp
next
  case (Cons i js)
  from Cons.prems(6) obtain a b where i: "i < length c" "c ! i = 0" "t ! i = Fin a" "t ! (i - 1) = Fin b"
    by auto
  from event_step_K1[OF Cons.prems(1-3) i, of m th Tr] obtain s1 p1 x1 f1 where
    s1: "event_step t c [Fin m] [[Fin 0]] (Fin th) (Fin Tr) 1 i s = Inr s1"
      "phi s1 = [Fin p1]" "d s1 = [Fin x1]" "F s1 = [Fin f1]" "lJ s1 = lJ s + dlog (Fin m)"
    by blast
  have lJ1: "lJ s1 = Fin (real (Suc n)) * dlog (Fin m)"
    using s1(5) Cons.prems(4) nlog_add[OF Cons.prems(5), of m] by simp
  from Cons.IH[OF s1(2-4) lJ1] Cons.prems(6) obtain s' f' where
    "event_loop t c [Fin m] [[Fin 0]] (Fin th) (Fin Tr) 1 js s1 = Inr s'" "F s' = [Fin f']"
    "lJ s' = Fin (real (Suc n + length js)) * dlog (Fin m)" by auto
  with s1(1) show ?case by simp
qed

text \<open>
  Claim C7. For one process (\<open>K = 1\<close>, every mark \<open>0\<close>) and \<open>A = [[0]]\<close>, on any
  sequence of \<open>N \<ge> 1\<close> finite times, \<open>mv_exp_ll\<close> returns the log-likelihood of a
  Poisson process, \<open>N * log(mu) - mu * T\<close>. The times need not even be sorted or lie in
  \<open>[0, T]\<close>, and the logarithm is the one of the code (\<open>-inf\<close> at \<open>mu = 0\<close>).
\<close>

theorem univariate_reduction:
  assumes "ts \<noteq> []"
  shows "mv_exp_ll (map Fin ts) (replicate (length ts) 0) [Fin m] [[Fin 0]] (Fin th) (Fin Tr) =
           Inr (Fin (real (length ts)) * dlog (Fin m) - Fin m * Fin Tr)"
proof -
  let ?t = "map Fin ts" and ?c = "replicate (length ts) (0::int)"
  have K: "length (remdups ?c) = 1" using assms by (simp add: length_remdups_card_conv)
  obtain f0 where s0: "first_event ?t ?c [Fin m] (Fin th) (Fin Tr) (ll_init 1) =
      Inr \<lparr>phi = [Fin 0], d = [Fin 0], ed = [Fin 0], F = [Fin f0], lJ = dlog (Fin m),
           lda = Fin 0, dot = Fin 0\<rparr>" (is "_ = Inr ?s0")
    using assms by (cases ts) (simp_all add: first_event_def ll_init_def in_bounds_def Let_def)
  have js: "\<forall>i\<in>set [1..<length ts]. i < length ?c \<and> ?c ! i = 0 \<and> (\<exists>a. ?t ! i = Fin a) \<and>
          (\<exists>b. ?t ! (i - 1) = Fin b)" by auto
  have base: "lJ ?s0 = Fin (real 1) * dlog (Fin m)"
    by (simp add: times_double_def inf_of_sign_def)
  have "\<exists>s f. event_loop ?t ?c [Fin m] [[Fin 0]] (Fin th) (Fin Tr) 1 [1..<length ts] ?s0 = Inr s \<and>
      F s = [Fin f] \<and> lJ s = Fin (real (1 + length [1..<length ts])) * dlog (Fin m)"
    by (rule event_loop_K1[where p = 0 and x = 0 and f = f0, OF _ _ _ base _ js]) simp_all
  then obtain s f where s: "event_loop ?t ?c [Fin m] [[Fin 0]] (Fin th) (Fin Tr) 1 [1..<length ts] ?s0 = Inr s"
    "F s = [Fin f]" "lJ s = Fin (real (1 + (length ts - 1))) * dlog (Fin m)"
    by auto
  have n: "1 + (length ts - 1) = length ts" using assms by (cases ts) simp_all
  have pass: "ll_pass ?t ?c [Fin m] [[Fin 0]] (Fin th) (Fin Tr) = Inr s"
    using K s0 s(1) by (simp add: ll_pass_def ll_events_def)
  have dot: "dot_T [[Fin 0]] (F s) = Inr [Fin 0]"
    using s(2) by (simp add: dot_T_def ncols_def np_sum_def)
  show ?thesis
    using pass dot s(3) n
    by (simp add: mv_exp_ll_def np_sum_def double_return_Fin del: dlog.simps)
qed

theorem univariate_reduction_witness:
  "[1, 2] \<noteq> ([]::real list) \<and>
   mv_exp_ll [Fin 1, Fin 2] [0, 0] [Fin 2] [[Fin 0]] (Fin 1) (Fin 3) = Inr (Fin (2 * ln 2 - 6))"
  using univariate_reduction[of "[1, 2]" 2 1 3] by simp

section \<open>The number of processes\<close>

lemmas ll_eval = mv_exp_ll_def ll_pass_def ll_events_def ll_init_def first_event_def event_step_def
  dot_T_def np_sum_def ncols_def in_bounds_def Let_def upt_rec[of _ "numeral _"] upt_rec[of 0 1]
  plus_double_def minus_double_def times_double_def uminus_double_def inf_of_sign_def

text \<open>
  Claim C1. The claim is that \<open>K\<close> is the length of \<open>mu\<close>, so that the arrays \<open>phi\<close>,
  \<open>d\<close>, \<open>ed\<close>, \<open>F\<close> and the inner loop cover every process however many distinct marks
  occur. The code takes \<open>K\<close> from \<open>np.unique(c)\<close>. On two events of the process \<open>0\<close> of
  a model of two processes, the arrays at the end of the pass have one entry, not two,
  and the \<open>return\<close> statement fails: \<open>A.T\<close> has two columns and \<open>F\<close> one entry.
\<close>

theorem K_is_number_of_distinct_marks:
  "ll_pass [Fin 1, Fin 2] [0, 0] [Fin 1, Fin 1] [[Fin 0, Fin 0], [Fin 0, Fin 0]] (Fin 1) (Fin 3) =
     Inr \<lparr>phi = [Fin (exp (- 1))], d = [Fin 0], ed = [Fin (exp (- 1))],
          F = [Fin (2 - exp (- 2) - exp (- 1))], lJ = Fin 0, lda = Fin 1, dot = Fin 0\<rparr> \<and>
   mv_exp_ll [Fin 1, Fin 2] [0, 0] [Fin 1, Fin 1] [[Fin 0, Fin 0], [Fin 0, Fin 0]] (Fin 1) (Fin 3) =
     Inl ValueError"
  by (simp add: ll_eval)

text \<open>
  Claim C2. The recursion of the claim starts by adding to \<open>F[c0]\<close> and setting
  \<open>d[c0] = 0\<close>. On two events of the process \<open>1\<close> of a model of two processes the
  arrays have one entry (\<open>K = 1\<close>, see C1), and the first statement of the pass writes
  \<open>F[1]\<close>, outside the array.
\<close>

theorem first_event_outside_arrays:
  "mv_exp_ll [Fin 1, Fin 2] [1, 1] [Fin 1, Fin 1] [[Fin 0, Fin 0], [Fin 0, Fin 0]] (Fin 1) (Fin 3) =
     Inl OutOfBounds"
  by (simp add: ll_eval)

section \<open>The value returned\<close>

lemma np_sum_upt: "np_sum (map f [0..<n]) = (\<Sum>j<n. f j)"
  by (simp add: np_sum_def interv_sum_list_conv_sum_set_nat atLeast0LessThan)

lemma np_sum_nth: "np_sum (map f xs) = (\<Sum>k<length xs. f (xs ! k))"
proof -
  have "map f xs = map (\<lambda>k. f (xs ! k)) [0..<length xs]"
    by (rule nth_equalityI) simp_all
  then show ?thesis by (simp only: np_sum_upt)
qed

lemma ncols_square:
  assumes "A \<noteq> []" "\<forall>r\<in>set A. length r = n"
  shows "ncols A = n"
  using assms by (cases A) (simp_all add: ncols_def)

text \<open>
  Claim C3, amended. When the shapes fit, the pass ends in a state \<open>s\<close> and the value
  returned is the running total \<open>lJ\<close> minus the sum of \<open>mu[k] * T\<close> minus the sum over
  \<open>j\<close> and \<open>k\<close> of \<open>A[j,k] * F[j]\<close>: the accumulator of the process \<open>j\<close> is weighted by
  the row \<open>j\<close> of \<open>A\<close>, the influence of \<open>j\<close> on every process, as \<open>A.T.dot(F)\<close> computes.
\<close>

theorem return_value_formula:
  assumes "shapes_ok t c mu A"
  shows "\<exists>s. ll_pass t c mu A theta T = Inr s \<and>
           mv_exp_ll t c mu A theta T =
             Inr (lJ s - (\<Sum>k<length mu. mu ! k * T)
                       - (\<Sum>j<length A. \<Sum>k<length A. A ! j ! k * F s ! j))"
proof -
  let ?K = "length (remdups c)"
  from ll_events_ok[OF assms, of "length t" theta T] obtain s where
    s: "ll_pass t c mu A theta T = Inr s" "length (F s) = ?K"
    by (auto simp: ll_pass_def)
  from assms have A: "length A = ?K" "\<forall>r\<in>set A. length r = ?K" and c: "c \<noteq> []"
    by (auto simp: shapes_ok_def Let_def)
  from c have "?K \<noteq> 0" by simp
  with A have cols: "ncols A = length A" by (intro ncols_square) auto
  have dot: "dot_T A (F s) = Inr (map (\<lambda>k. \<Sum>j<length A. A ! j ! k * F s ! j) [0..<length A])"
    using s(2) A(1) cols by (simp add: dot_T_def np_sum_upt)
  have "np_sum (map (\<lambda>k. \<Sum>j<length A. A ! j ! k * F s ! j) [0..<length A]) =
      (\<Sum>k<length A. \<Sum>j<length A. A ! j ! k * F s ! j)"
    by (rule np_sum_upt)
  also have "\<dots> = (\<Sum>j<length A. \<Sum>k<length A. A ! j ! k * F s ! j)"
    by (rule sum.swap)
  finally have sum2: "np_sum (map (\<lambda>k. \<Sum>j<length A. A ! j ! k * F s ! j) [0..<length A]) =
      (\<Sum>j<length A. \<Sum>k<length A. A ! j ! k * F s ! j)" .
  have "mv_exp_ll t c mu A theta T =
      Inr (lJ s + - np_sum (map (\<lambda>m. m * T) mu)
             - np_sum (map (\<lambda>k. \<Sum>j<length A. A ! j ! k * F s ! j) [0..<length A]))"
    using s(1) dot by (simp add: mv_exp_ll_def)
  also have "\<dots> = Inr (lJ s - (\<Sum>k<length mu. mu ! k * T)
                       - (\<Sum>j<length A. \<Sum>k<length A. A ! j ! k * F s ! j))"
    by (simp only: sum2) (simp only: np_sum_nth double_diff_conv)
  finally show ?thesis using s(1) by blast
qed

theorem return_value_formula_witness:
  "shapes_ok [Fin 0, Fin 1] [0, 1] [Fin 1, Fin 1] [[Fin 0, Fin 1], [Fin 0, Fin 0]] \<and>
   mv_exp_ll [Fin 0, Fin 1] [0, 1] [Fin 1, Fin 1] [[Fin 0, Fin 1], [Fin 0, Fin 0]] (Fin 1) (Fin 2) =
     Inr (Fin (ln (1 + exp (- 1)) - 4 - (1 - exp (- 2))))"
proof -
  let ?t = "[Fin 0, Fin 1]" and ?c = "[0, 1::int]" and ?mu = "[Fin 1, Fin 1]"
    and ?A = "[[Fin 0, Fin 1], [Fin 0, Fin 0]]"
  have sh: "shapes_ok ?t ?c ?mu ?A"
    by (simp add: shapes_ok_def in_bounds_def All_less_Suc)
  from return_value_formula[OF sh, of "Fin 1" "Fin 2"] obtain s where
    s: "ll_pass ?t ?c ?mu ?A (Fin 1) (Fin 2) = Inr s"
      "mv_exp_ll ?t ?c ?mu ?A (Fin 1) (Fin 2) =
         Inr (lJ s - (\<Sum>k<length ?mu. ?mu ! k * Fin 2)
                   - (\<Sum>j<length ?A. \<Sum>k<length ?A. ?A ! j ! k * F s ! j))"
    by blast
  have "ll_pass ?t ?c ?mu ?A (Fin 1) (Fin 2) =
      Inr \<lparr>phi = [Fin (exp (- 1)), Fin 0], d = [Fin 1, Fin 0], ed = [Fin (exp (- 1)), Fin 0],
           F = [Fin (1 - exp (- 2)), Fin (1 - exp (- 1))], lJ = Fin (ln (1 + exp (- 1))),
           lda = Fin (1 + exp (- 1)), dot = Fin (exp (- 1))\<rparr>"
    by (simp add: ll_eval add_pos_pos)
  with s(1) have "lJ s = Fin (ln (1 + exp (- 1)))" "F s = [Fin (1 - exp (- 2)), Fin (1 - exp (- 1))]"
    by auto
  with s(2) sh show ?thesis
    by (simp add: lessThan_Suc eval_nat_numeral)
qed

text \<open>
  The claim as the specification states it, with \<open>A[j,k] * F[k]\<close>, fails when \<open>A\<close> is not
  symmetric: with two events, of the processes \<open>0\<close> and \<open>1\<close>, and \<open>A[0,1] = 1\<close> the only
  non-zero entry, the code subtracts \<open>F[0]\<close> and the formula of the claim \<open>F[1]\<close>.
\<close>

theorem spec_return_formula_counterexample:
  "ll_pass [Fin 0, Fin 1] [0, 1] [Fin 1, Fin 1] [[Fin 0, Fin 1], [Fin 0, Fin 0]] (Fin 1) (Fin 2) =
     Inr \<lparr>phi = [Fin (exp (- 1)), Fin 0], d = [Fin 1, Fin 0], ed = [Fin (exp (- 1)), Fin 0],
          F = [Fin (1 - exp (- 2)), Fin (1 - exp (- 1))], lJ = Fin (ln (1 + exp (- 1))),
          lda = Fin (1 + exp (- 1)), dot = Fin (exp (- 1))\<rparr> \<and>
   mv_exp_ll [Fin 0, Fin 1] [0, 1] [Fin 1, Fin 1] [[Fin 0, Fin 1], [Fin 0, Fin 0]] (Fin 1) (Fin 2) \<noteq>
     Inr (spec_final_value
            \<lparr>phi = [Fin (exp (- 1)), Fin 0], d = [Fin 1, Fin 0], ed = [Fin (exp (- 1)), Fin 0],
             F = [Fin (1 - exp (- 2)), Fin (1 - exp (- 1))], lJ = Fin (ln (1 + exp (- 1))),
             lda = Fin (1 + exp (- 1)), dot = Fin (exp (- 1))\<rparr>
            [Fin 1, Fin 1] [[Fin 0, Fin 1], [Fin 0, Fin 0]] (Fin 2))"
  by (simp add: ll_eval add_pos_pos spec_final_value_def lessThan_Suc eval_nat_numeral)

section \<open>The recursion against the sum over pairs\<close>

text \<open>
  Claim C4. On three events at the times \<open>0\<close>, \<open>1\<close>, \<open>2\<close> of the processes \<open>0\<close>, \<open>1\<close>,
  \<open>1\<close>, with \<open>A[0,1] = 1\<close>, the value of \<open>mv_exp_ll\<close> is not the log-likelihood computed
  by the sum over pairs. At the third event the code has
  \<open>phi[0] = exp(-2) * (1 + exp(-1))\<close>, where the sum over the earlier events of the process
  \<open>0\<close> is \<open>exp(-2)\<close>: the update adds \<open>1\<close> to \<open>phi[0]\<close> at the second event, which is not
  an event of the process \<open>0\<close>.
\<close>

theorem recursion_differs_from_pairwise_sum:
  "mv_exp_ll (map Fin [0, 1, 2]) (map int [0, 1, 1]) (map Fin [1, 1])
     (map (map Fin) [[0, 1], [0, 0]]) (Fin 1) (Fin 3) \<noteq>
   Inr (Fin (brute_force_ll [0, 1, 2] [0, 1, 1] [1, 1] [[0, 1], [0, 0]] 1 3))"
proof -
  have "ln (1 + exp (- 2) * (1 + exp (- 1))) \<noteq> ln (1 + exp (- 2) :: real)"
    by (simp add: add_pos_pos algebra_simps)
  then show ?thesis
    by (simp add: ll_eval add_pos_pos brute_force_ll_def intensity_def lessThan_Suc eval_nat_numeral)
qed

section \<open>Inputs that are not checked\<close>

text \<open>
  Claim C5, amended. \<open>mv_exp_ll\<close> checks none of its inputs before it computes. When the
  shapes fit, it returns a value whatever \<open>theta\<close> and \<open>T\<close> are and whatever the entries of
  \<open>mu\<close>, \<open>A\<close> and \<open>t\<close> are: a negative entry, \<open>theta \<le> 0\<close>, \<open>T \<le> 0\<close>, \<open>T\<close> below the
  last time and more marks than times raise nothing.
\<close>

theorem no_input_validation:
  assumes "shapes_ok t c mu A"
  shows "\<exists>v. mv_exp_ll t c mu A theta T = Inr v"
proof -
  from ll_events_ok[OF assms, of "length t" theta T] obtain s where
    s: "ll_pass t c mu A theta T = Inr s" "length (F s) = length (remdups c)"
    by (auto simp: ll_pass_def)
  moreover from assms have "length A = length (remdups c)" by (simp add: shapes_ok_def Let_def)
  ultimately show ?thesis by (simp add: mv_exp_ll_def dot_T_def)
qed

theorem no_input_validation_witness:
  "shapes_ok [Fin 1, Fin 2] [0, 0, 0] [Fin (- 1)] [[Fin (- 1)]] \<and>
   (\<exists>v. mv_exp_ll [Fin 1, Fin 2] [0, 0, 0] [Fin (- 1)] [[Fin (- 1)]] (Fin 0) (Fin (- 1)) = Inr v)"
  using no_input_validation[of "[Fin 1, Fin 2]" "[0, 0, 0]" "[Fin (- 1)]" "[[Fin (- 1)]]" "Fin 0" "Fin (- 1)"]
  by (simp add: shapes_ok_def in_bounds_def All_less_Suc)

text \<open>
  With \<open>T = 3/2\<close> below the last time \<open>2\<close> the call returns \<open>-3/2\<close>; the claim has it fail
  with InvalidInput.
\<close>

theorem invalid_input_counterexample:
  "mv_exp_ll [Fin 1, Fin 2] [0, 0] [Fin 1] [[Fin 0]] (Fin 1) (Fin (3 / 2)) = Inr (Fin (- (3 / 2)))"
  by (simp add: ll_eval)

section \<open>The logarithm of an intensity that is not positive\<close>

lemma dlog_nonpos: "x \<le> Fin 0 \<Longrightarrow> dlog x = NInf \<or> dlog x = NaN"
  by (cases x) (auto simp: less_eq_double_def)

lemma poison_add: "x = NInf \<or> x = NaN \<Longrightarrow> x + y = NInf \<or> x + y = NaN"
  by (cases y) (auto simp: plus_double_def)

lemma poison_add2: "y = NInf \<or> y = NaN \<Longrightarrow> x + y = NInf \<or> x + y = NaN"
  by (cases x) (auto simp: plus_double_def)

lemma poison_sub: "x = NInf \<or> x = NaN \<Longrightarrow> x - y = NInf \<or> x - y = NaN"
  by (cases y) (auto simp: minus_double_def)

lemma decay_loop_lJ: "decay_loop A theta dt ci ks s = Inr s' \<Longrightarrow> lJ s' = lJ s"
  by (induction ks arbitrary: s) (auto simp: Let_def split: if_splits)

lemma event_step_lJ:
  assumes "event_step t c mu A theta T K i s = Inr s'"
  shows "lJ s' = lJ s + dlog (lda s')"
  using assms
  by (auto simp: event_step_def Let_def split: if_splits sum.splits dest!: decay_loop_lJ)

lemma event_loop_append:
  "event_loop t c mu A theta T K (xs @ ys) s =
     (case event_loop t c mu A theta T K xs s of
        Inl e \<Rightarrow> Inl e
      | Inr s' \<Rightarrow> event_loop t c mu A theta T K ys s')"
  by (induction xs arbitrary: s) (auto split: sum.splits)

lemma event_loop_poison:
  assumes "event_loop t c mu A theta T K js s = Inr s'" "lJ s = NInf \<or> lJ s = NaN"
  shows "lJ s' = NInf \<or> lJ s' = NaN"
  using assms
proof (induction js arbitrary: s)
  case Nil
  then show ?case by simp
next
  case (Cons i js)
  from Cons.prems(1) obtain s1 where s1: "event_step t c mu A theta T K i s = Inr s1"
    "event_loop t c mu A theta T K js s1 = Inr s'" by (auto split: sum.splits)
  have "lJ s1 = NInf \<or> lJ s1 = NaN"
    using event_step_lJ[OF s1(1)] poison_add[OF Cons.prems(2)] by simp
  from Cons.IH[OF s1(2) this] show ?case .
qed

lemma first_event_lJ:
  assumes "first_event t c mu theta T s = Inr s'"
  shows "lJ s' = dlog (mu ! nat (c ! 0))"
  using assms by (auto simp: first_event_def Let_def split: if_splits)

lemma upt_split_last: "2 \<le> n \<Longrightarrow> [1..<n] = [1..<n - 1] @ [n - 1]"
  by (cases n) simp_all

lemma upt_split_at: "1 \<le> n \<Longrightarrow> n \<le> m \<Longrightarrow> [1..<m] = [1..<n] @ [n..<m]"
  using upt_add_eq_append[of 1 n "m - n"] by simp

text \<open>
  Claim C6, amended. No DomainError exists in \<open>mv_exp_ll\<close>. When the shapes fit and the
  background rate \<open>mu[c0]\<close> of the first event, or the intensity \<open>lda\<close> computed at a later
  event, is at most \<open>0\<close>, the logarithm is \<open>-inf\<close> or NaN without any signal and the call
  returns \<open>-inf\<close> or NaN.
\<close>

theorem log_of_nonpositive_returned:
  assumes sh: "shapes_ok t c mu A"
    and nonpos: "mu ! nat (c ! 0) \<le> Fin 0 \<or>
      (\<exists>n s. 2 \<le> n \<and> n \<le> length t \<and> ll_events t c mu A theta T n = Inr s \<and> lda s \<le> Fin 0)"
  shows "mv_exp_ll t c mu A theta T = Inr NInf \<or> mv_exp_ll t c mu A theta T = Inr NaN"
proof -
  let ?K = "length (remdups c)"
  from ll_events_ok[OF sh, of "length t" theta T] obtain sN where
    sN: "ll_events t c mu A theta T (length t) = Inr sN" "length (F sN) = ?K" by auto
  then obtain s1 where s1: "first_event t c mu theta T (ll_init ?K) = Inr s1"
    "event_loop t c mu A theta T ?K [1..<length t] s1 = Inr sN"
    by (auto simp: ll_events_def Let_def split: sum.splits)
  have bad: "lJ sN = NInf \<or> lJ sN = NaN"
    using nonpos
  proof
    assume "mu ! nat (c ! 0) \<le> Fin 0"
    then have "lJ s1 = NInf \<or> lJ s1 = NaN"
      using first_event_lJ[OF s1(1)] dlog_nonpos by simp
    from event_loop_poison[OF s1(2) this] show ?thesis .
  next
    assume "\<exists>n s. 2 \<le> n \<and> n \<le> length t \<and> ll_events t c mu A theta T n = Inr s \<and> lda s \<le> Fin 0"
    then obtain n s where n: "2 \<le> n" "n \<le> length t" "ll_events t c mu A theta T n = Inr s"
      "lda s \<le> Fin 0" by blast
    from n(3) s1(1) have loop_n: "event_loop t c mu A theta T ?K [1..<n] s1 = Inr s"
      by (simp add: ll_events_def Let_def)
    from loop_n obtain s' where s': "event_step t c mu A theta T ?K (n - 1) s' = Inr s"
      unfolding upt_split_last[OF n(1)] event_loop_append by (auto split: sum.splits)
    have "lJ s = NInf \<or> lJ s = NaN"
      using event_step_lJ[OF s'] poison_add2[OF dlog_nonpos[OF n(4)]] by simp
    moreover from n(1) have "1 \<le> n" by simp
    from s1(2) loop_n have "event_loop t c mu A theta T ?K [n..<length t] s = Inr sN"
      unfolding upt_split_at[OF \<open>1 \<le> n\<close> n(2)] event_loop_append by simp
    ultimately show ?thesis using event_loop_poison by blast
  qed
  from sh have "length A = ?K" by (simp add: shapes_ok_def Let_def)
  with sN obtain v where "mv_exp_ll t c mu A theta T = Inr (lJ sN + - np_sum (map (\<lambda>m. m * T) mu) - np_sum v)"
    by (simp add: mv_exp_ll_def ll_pass_def dot_T_def)
  with poison_sub[OF poison_add[OF bad]] show ?thesis by simp
qed

theorem log_of_nonpositive_returned_witness:
  "shapes_ok [Fin 1, Fin 1] [0, 0] [Fin 1] [[Fin (- 2)]] \<and>
   ll_events [Fin 1, Fin 1] [0, 0] [Fin 1] [[Fin (- 2)]] (Fin 1) (Fin 2) 2 =
     Inr \<lparr>phi = [Fin 1], d = [Fin 0], ed = [Fin 1], F = [Fin (2 - 2 * exp (- 1))], lJ = NaN,
          lda = Fin (- 1), dot = Fin (- 2)\<rparr> \<and>
   Fin (- 1) \<le> Fin 0 \<and>
   mv_exp_ll [Fin 1, Fin 1] [0, 0] [Fin 1] [[Fin (- 2)]] (Fin 1) (Fin 2) = Inr NaN"
proof -
  let ?t = "[Fin 1, Fin 1]" and ?c = "[0, 0::int]" and ?mu = "[Fin 1]" and ?A = "[[Fin (- 2)]]"
  let ?s = "\<lparr>phi = [Fin 1], d = [Fin 0], ed = [Fin 1], F = [Fin (2 - 2 * exp (- 1))], lJ = NaN,
          lda = Fin (- 1), dot = Fin (- 2)\<rparr>"
  have sh: "shapes_ok ?t ?c ?mu ?A"
    by (simp add: shapes_ok_def in_bounds_def All_less_Suc)
  have ev: "ll_events ?t ?c ?mu ?A (Fin 1) (Fin 2) 2 = Inr ?s"
    by (simp add: ll_eval)
  have le: "Fin (- 1) \<le> Fin 0" by (simp add: less_eq_double_def)
  have "mu_0 \<le> Fin 0 \<or> (\<exists>n s. 2 \<le> n \<and> n \<le> length ?t \<and>
      ll_events ?t ?c ?mu ?A (Fin 1) (Fin 2) n = Inr s \<and> lda s \<le> Fin 0)" for mu_0
    using ev le by (intro disjI2 exI[of _ 2] exI[of _ ?s]) simp
  from log_of_nonpositive_returned[OF sh this]
  have "mv_exp_ll ?t ?c ?mu ?A (Fin 1) (Fin 2) = Inr NInf \<or>
        mv_exp_ll ?t ?c ?mu ?A (Fin 1) (Fin 2) = Inr NaN" .
  moreover have "mv_exp_ll ?t ?c ?mu ?A (Fin 1) (Fin 2) \<noteq> Inr NInf"
    by (simp add: ll_eval)
  ultimately show ?thesis using sh ev le by simp
qed

text \<open>
  With \<open>mu = [0]\<close> the logarithm of the first event is \<open>log(0)\<close>: the call returns
  \<open>-inf\<close> and signals nothing. With \<open>A = [[-2]]\<close> and two events at the same time the
  second intensity is \<open>-1\<close>: the call returns NaN.
\<close>

theorem domain_error_counterexample:
  "mv_exp_ll [Fin 1, Fin 2] [0, 0] [Fin 0] [[Fin 0]] (Fin 1) (Fin 2) = Inr NInf \<and>
   mv_exp_ll [Fin 1, Fin 1] [0, 0] [Fin 1] [[Fin (- 2)]] (Fin 1) (Fin 2) = Inr NaN"
  by (simp add: ll_eval)

section \<open>The offspring are the candidates before \<open>T\<close>\<close>

lemma uu_eq: "uu RM g = (Fin (real (crand g 0)) / Fin (real RM), g\<lparr>crand := \<lambda>n. crand g (Suc n)\<rparr>)"
  by (simp add: uu_def rand_def)

lemma draw_children_eq:
  "draw_children RM theta t k n g (tos, cos') =
     ((tos @ map (\<lambda>j. - dlog (Fin (real (crand g j)) / Fin (real RM)) / theta + t) [0..<n],
       cos' @ replicate n k),
      g\<lparr>crand := \<lambda>i. crand g (n + i)\<rparr>)"
proof (induction n arbitrary: g tos cos')
  case 0
  then show ?case by simp
next
  case (Suc n)
  show ?case
    by (simp add: uu_eq Suc.IH map_upt_Suc del: upt_Suc)
qed


lemma offspring_loop_eq:
  assumes "k \<le> K"
  shows "offspring_loop RM Acp theta t [k..<K]
           (g\<lparr>pois := \<lambda>n. pois g (k + n), crand := \<lambda>n. crand g (b + n)\<rparr>) (map fst L, map snd L) =
         (let X = concat (map (\<lambda>k'. map (\<lambda>j. (- dlog (Fin (real (crand g (b + (\<Sum>i = k..<k'. n_children g Acp i) + j))) / Fin (real RM)) / theta + t, int k'))
                                  [0..<n_children g Acp k']) [k..<K])
          in ((map fst (L @ X), map snd (L @ X)),
              g\<lparr>pois := \<lambda>n. pois g (K + n), crand := \<lambda>n. crand g (b + (\<Sum>i = k..<K. n_children g Acp i) + n)\<rparr>))"
  using assms
proof (induction "K - k" arbitrary: k b L)
  case 0
  then show ?case by simp
next
  case (Suc m)
  then have k: "k < K" and m: "m = K - Suc k" and k': "Suc k \<le> K" by simp_all
  let ?n = "n_children g Acp k"
  let ?ch = "map (\<lambda>j. (- dlog (Fin (real (crand g (b + j))) / Fin (real RM)) / theta + t, int k)) [0..<?n]"
  have step: "offspring_loop RM Acp theta t [k..<K]
           (g\<lparr>pois := \<lambda>n. pois g (k + n), crand := \<lambda>n. crand g (b + n)\<rparr>) (map fst L, map snd L) =
      offspring_loop RM Acp theta t [Suc k..<K]
           (g\<lparr>pois := \<lambda>n. pois g (Suc k + n), crand := \<lambda>n. crand g (b + ?n + n)\<rparr>)
           (map fst (L @ ?ch), map snd (L @ ?ch))"
    using k
    by (simp add: upt_conv_Cons np_random_poisson_def draw_children_eq n_children_def
        comp_def add.assoc map_replicate_trivial)
  have sums: "(\<Sum>i = k..<k'. n_children g Acp i) = ?n + (\<Sum>i = Suc k..<k'. n_children g Acp i)"
    if "k < k'" for k'
    using that by (simp add: sum.atLeast_Suc_lessThan)
  have tail: "map (\<lambda>k'. map (\<lambda>j. (- dlog (Fin (real (crand g (b + (\<Sum>i = k..<k'. n_children g Acp i) + j))) / Fin (real RM)) / theta + t, int k'))
                                  [0..<n_children g Acp k']) [Suc k..<K] =
      map (\<lambda>k'. map (\<lambda>j. (- dlog (Fin (real (crand g (b + ?n + (\<Sum>i = Suc k..<k'. n_children g Acp i) + j))) / Fin (real RM)) / theta + t, int k'))
                                  [0..<n_children g Acp k']) [Suc k..<K]"
    by (rule map_cong[OF refl]) (simp add: sums add.assoc)
  have X: "concat (map (\<lambda>k'. map (\<lambda>j. (- dlog (Fin (real (crand g (b + (\<Sum>i = k..<k'. n_children g Acp i) + j))) / Fin (real RM)) / theta + t, int k'))
                                  [0..<n_children g Acp k']) [k..<K]) =
      ?ch @ concat (map (\<lambda>k'. map (\<lambda>j. (- dlog (Fin (real (crand g (b + ?n + (\<Sum>i = Suc k..<k'. n_children g Acp i) + j))) / Fin (real RM)) / theta + t, int k'))
                                  [0..<n_children g Acp k']) [Suc k..<K])"
    unfolding upt_conv_Cons[OF k] list.map concat.simps tail by simp
  show ?case
    unfolding step Suc.hyps(1)[OF m k', of "b + ?n" "L @ ?ch"] Let_def X
    using k by (simp add: sums add.assoc)
qed


lemma np_mask_fst: "np_mask (map fst X) (map (Q \<circ> fst) X) = map fst (filter (\<lambda>(a, b). Q a) X)"
  by (induction X) (auto simp: np_mask_def)

lemma np_mask_snd: "np_mask (map snd X) (map (Q \<circ> fst) X) = map snd (filter (\<lambda>(a, b). Q a) X)"
  by (induction X) (auto simp: np_mask_def)

lemma rng_same: "g\<lparr>pois := \<lambda>n. pois g n, crand := \<lambda>n. crand g n\<rparr> = (g::rng)"
  by simp

lemma get_mv_offspring_eq:
  "get_mv_offspring RM g t Acp theta T =
     ((map fst (filter (\<lambda>(tt, k). tt < T) (candidates RM g t Acp theta)),
       map snd (filter (\<lambda>(tt, k). tt < T) (candidates RM g t Acp theta))),
      g\<lparr>pois := \<lambda>n. pois g (length Acp + n),
         crand := \<lambda>n. crand g ((\<Sum>k<length Acp. n_children g Acp k) + n)\<rparr>)"
proof -
  have "offspring_loop RM Acp theta t [0..<length Acp] g ([], []) =
      ((map fst (candidates RM g t Acp theta), map snd (candidates RM g t Acp theta)),
       g\<lparr>pois := \<lambda>n. pois g (length Acp + n),
          crand := \<lambda>n. crand g ((\<Sum>k<length Acp. n_children g Acp k) + n)\<rparr>)"
    using offspring_loop_eq[of 0 "length Acp" RM Acp theta t g 0 "[]"]
    by (simp add: candidates_def child_time_def atLeast0LessThan add.commute[of t] Let_def)
  then show ?thesis
    by (simp add: get_mv_offspring_def Let_def np_mask_fst np_mask_snd)
qed

text \<open>
  Claim C8. The sequence that \<open>_get_mv_offspring\<close> returns is the sequence of the
  candidates of the specification (for each process \<open>k\<close> in \<open>[0, K)\<close>, \<open>n\<^sub>k\<close> children of
  mark \<open>k\<close> at the time of the parent plus \<open>- ln U / theta\<close>, with \<open>n\<^sub>k\<close> the count drawn
  with the mean \<open>Acp[k]\<close>), restricted to the candidates of time \<open>< T\<close> and in their
  order; it is empty when no candidate is left.
\<close>

theorem offspring_are_filtered_candidates:
  "fst (get_mv_offspring RM g t Acp theta T) =
     (map fst (filter (\<lambda>(tt, k). tt < T) (candidates RM g t Acp theta)),
      map snd (filter (\<lambda>(tt, k). tt < T) (candidates RM g t Acp theta))) \<and>
   (filter (\<lambda>(tt, k). tt < T) (candidates RM g t Acp theta) = [] \<longrightarrow>
      fst (get_mv_offspring RM g t Acp theta T) = ([], []))"
  by (simp add: get_mv_offspring_eq)

theorem offspring_are_filtered_candidates_witness:
  "filter (\<lambda>(tt, k). tt < Fin 5)
     (candidates 32767 \<lparr>pois = \<lambda>n lam. 1, unif = \<lambda>n. 0, crand = \<lambda>n. 0\<rparr> (Fin 1) [Fin 1] (Fin 1)) = [] \<and>
   fst (get_mv_offspring 32767 \<lparr>pois = \<lambda>n lam. 1, unif = \<lambda>n. 0, crand = \<lambda>n. 0\<rparr>
          (Fin 1) [Fin 1] (Fin 1) (Fin 5)) = ([], []) \<and>
   fst (get_mv_offspring 32767
          \<lparr>pois = \<lambda>n lam. 1, unif = \<lambda>n. 0, crand = \<lambda>n. if n = 0 then 0 else 32767\<rparr>
          (Fin 1) [Fin 1, Fin 1] (Fin 1) (Fin 5)) = ([Fin 1], [1])"
proof -
  let ?g = "\<lparr>pois = \<lambda>n lam. 1, unif = \<lambda>n. 0, crand = \<lambda>n. 0\<rparr>"
  let ?h = "\<lparr>pois = \<lambda>n lam. 1, unif = \<lambda>n. 0, crand = \<lambda>n. if n = 0 then 0 else 32767\<rparr>"
  have g: "candidates 32767 ?g (Fin 1) [Fin 1] (Fin 1) = [(PInf, 0)]"
    by (simp add: candidates_def n_children_def child_time_def divide_double_def
        uminus_double_def plus_double_def inf_of_sign_def)
  have h: "candidates 32767 ?h (Fin 1) [Fin 1, Fin 1] (Fin 1) = [(PInf, 0), (Fin 1, 1)]"
    by (simp add: candidates_def n_children_def child_time_def divide_double_def
        uminus_double_def plus_double_def inf_of_sign_def upt_rec[of _ "numeral _"])
  have "fst (get_mv_offspring 32767 ?g (Fin 1) [Fin 1] (Fin 1) (Fin 5)) = ([], [])"
    using offspring_are_filtered_candidates[of 32767 ?g "Fin 1" "[Fin 1]" "Fin 1" "Fin 5", unfolded g]
    by (simp add: less_double_def)
  moreover have "fst (get_mv_offspring 32767 ?h (Fin 1) [Fin 1, Fin 1] (Fin 1) (Fin 5)) = ([Fin 1], [1])"
    using offspring_are_filtered_candidates[of 32767 ?h "Fin 1" "[Fin 1, Fin 1]" "Fin 1" "Fin 5", unfolded h]
    by (simp add: less_double_def)
  ultimately show ?thesis
    unfolding g by (simp add: less_double_def)
qed

section \<open>A child is not before its parent\<close>

lemma double_add_zero: "x + Fin 0 = (x::double)"
  by (cases x) (simp_all add: plus_double_def)

lemma not_less_PInf: "\<not> PInf < (T::double)" "\<not> NaN < (T::double)"
  by (cases T; simp add: less_double_def)+

lemma child_time_ge:
  assumes "rng_ok RM g" "0 < th" "child_time RM g (Fin th) t i < T"
  shows "t \<le> child_time RM g (Fin th) t i"
proof -
  let ?r = "real (crand g i)" and ?R = "real RM"
  from assms(1) have R: "0 < ?R" and r: "?r \<le> ?R" by (auto simp: rng_ok_def)
  show ?thesis
  proof (cases "crand g i = 0")
    case True
    then have "child_time RM g (Fin th) t i = t + PInf"
      using assms(2) R
      by (simp add: child_time_def divide_double_def uminus_double_def inf_of_sign_def)
    with assms(3) show ?thesis
      by (cases t) (simp_all add: plus_double_def not_less_PInf)
  next
    case False
    then have pos: "0 < ?r / ?R" "?r / ?R \<le> 1" using R r by simp_all
    then have ln: "ln (?r / ?R) \<le> 0" by (simp del: ln_div)
    have "child_time RM g (Fin th) t i = t + Fin (- ln (?r / ?R) / th)"
      using pos R assms(2) False
      by (simp add: child_time_def divide_double_def)
    moreover have "0 \<le> - ln (?r / ?R) / th" using ln assms(2) by (simp add: divide_nonpos_pos)
    ultimately show ?thesis using assms(3)
      by (cases t) (simp_all add: plus_double_def less_eq_double_def not_less_PInf)
  qed
qed

lemma candidates_times:
  assumes "x \<in> set (candidates RM g t Acp theta)"
  shows "\<exists>i. fst x = child_time RM g theta t i"
  using assms by (auto simp: candidates_def)

lemma offspring_after_parent:
  assumes "rng_ok RM g" "0 < th" "tt \<in> set (fst (fst (get_mv_offspring RM g t Acp (Fin th) T)))"
  shows "t \<le> tt \<and> tt < T"
proof -
  from assms(3) obtain x where x: "x \<in> set (candidates RM g t Acp (Fin th))" "fst x < T" "tt = fst x"
    by (auto simp: get_mv_offspring_eq)
  from candidates_times[OF x(1)] obtain i where "fst x = child_time RM g (Fin th) t i" by blast
  with x(2,3) child_time_ge[OF assms(1,2), of t i T] show ?thesis by simp
qed

text \<open>
  Claim C10. With \<open>theta > 0\<close> every time that \<open>_get_mv_offspring\<close> returns is at or
  after the time of the parent, and it can be equal to it: \<open>uu\<close> divides \<open>rand()\<close> by
  \<open>RAND_MAX\<close>, so it takes the values \<open>1\<close> and \<open>0\<close>. When \<open>rand()\<close> returns \<open>RAND_MAX\<close> the
  offset is \<open>0\<close> and the child has the time of its parent; when it returns \<open>0\<close> the offset
  is infinite and the candidate is removed by the test \<open>tres < T\<close>.
\<close>

theorem child_at_or_after_parent:
  assumes "rng_ok RM g" "0 < th"
  shows "(\<forall>tt\<in>set (fst (fst (get_mv_offspring RM g t Acp (Fin th) T))). t \<le> tt) \<and>
         (length Acp = 1 \<and> pois g 0 (Acp ! 0) = 1 \<and> crand g 0 = RM \<and> t < T \<longrightarrow>
            fst (uu RM g) = Fin 1 \<and>
            fst (get_mv_offspring RM g t Acp (Fin th) T) = ([t], [0])) \<and>
         (length Acp = 1 \<and> pois g 0 (Acp ! 0) = 1 \<and> crand g 0 = 0 \<longrightarrow>
            fst (uu RM g) = Fin 0 \<and>
            fst (get_mv_offspring RM g t Acp (Fin th) T) = ([], []))"
proof (intro conjI ballI impI)
  fix tt assume "tt \<in> set (fst (fst (get_mv_offspring RM g t Acp (Fin th) T)))"
  from offspring_after_parent[OF assms this] show "t \<le> tt" by simp
next
  assume a: "length Acp = 1 \<and> pois g 0 (Acp ! 0) = 1 \<and> crand g 0 = RM \<and> t < T"
  from assms(1) have R: "0 < real RM" by (simp add: rng_ok_def)
  with a show "fst (uu RM g) = Fin 1" by (simp add: uu_eq divide_double_def)
  from a R assms(2) have "candidates RM g t Acp (Fin th) = [(t, 0)]"
    by (simp add: candidates_def n_children_def child_time_def divide_double_def double_add_zero)
  with a show "fst (get_mv_offspring RM g t Acp (Fin th) T) = ([t], [0])"
    by (simp add: get_mv_offspring_eq)
next
  assume a: "length Acp = 1 \<and> pois g 0 (Acp ! 0) = 1 \<and> crand g 0 = 0"
  from assms(1) have R: "0 < real RM" by (simp add: rng_ok_def)
  with a show "fst (uu RM g) = Fin 0" by (simp add: uu_eq divide_double_def)
  from a R assms(2) have "candidates RM g t Acp (Fin th) = [(t + PInf, 0)]"
    by (simp add: candidates_def n_children_def child_time_def divide_double_def
        uminus_double_def inf_of_sign_def)
  moreover have "\<not> t + PInf < T"
    by (cases t) (simp_all add: plus_double_def not_less_PInf)
  ultimately show "fst (get_mv_offspring RM g t Acp (Fin th) T) = ([], [])"
    by (simp add: get_mv_offspring_eq)
qed

theorem child_at_or_after_parent_witness:
  "rng_ok 32767 \<lparr>pois = \<lambda>n lam. 1, unif = \<lambda>n. 0, crand = \<lambda>n. 32767\<rparr> \<and> (0::real) < 1 \<and>
   fst (uu 32767 \<lparr>pois = \<lambda>n lam. 1, unif = \<lambda>n. 0, crand = \<lambda>n. 32767\<rparr>) = Fin 1 \<and>
   fst (get_mv_offspring 32767 \<lparr>pois = \<lambda>n lam. 1, unif = \<lambda>n. 0, crand = \<lambda>n. 32767\<rparr>
          (Fin 1) [Fin 1] (Fin 1) (Fin 5)) = ([Fin 1], [0])"
proof -
  let ?g = "\<lparr>pois = \<lambda>n lam. 1, unif = \<lambda>n. 0, crand = \<lambda>n. 32767\<rparr>"
  have ok: "rng_ok 32767 ?g" by (simp add: rng_ok_def)
  have th: "(0::real) < 1" by simp
  from child_at_or_after_parent[OF ok th, of "Fin 1" "[Fin 1]" "Fin 5"] ok
  show ?thesis by (simp add: less_double_def)
qed

section \<open>The generations stay in \<open>[0, T)\<close>\<close>

lemma window_trans: "Fin 0 \<le> p \<Longrightarrow> p \<le> tt \<Longrightarrow> Fin 0 \<le> (tt::double)"
  by (cases p; cases tt) (simp_all add: less_eq_double_def)

lemma offspring_window:
  assumes "rng_ok RM g" "0 < th" "Fin 0 \<le> p"
    and "tt \<in> set (fst (fst (get_mv_offspring RM g p Acp (Fin th) T)))"
  shows "Fin 0 \<le> tt \<and> tt < T"
  using offspring_after_parent[OF assms(1,2,4)] window_trans[OF assms(3)] by blast

lemma offspring_rng_ok:
  assumes "rng_ok RM g"
  shows "rng_ok RM (snd (get_mv_offspring RM g p Acp theta T))"
  using assms by (simp add: get_mv_offspring_eq rng_ok_def)

lemma offspring_length:
  "length (fst (fst (get_mv_offspring RM g p Acp theta T))) =
   length (snd (fst (get_mv_offspring RM g p Acp theta T)))"
  by (simp add: get_mv_offspring_eq)

lemma generation_inv:
  assumes "generation RM A (Fin th) T ps g (os_P, os_C) = Inr ((os_P', os_C'), g')"
    and "rng_ok RM g" "0 < th" "\<forall>x\<in>set ps. Fin 0 \<le> fst x"
    and "\<forall>x\<in>set (concat os_P). Fin 0 \<le> x \<and> x < T"
    and "length (concat os_P) = length (concat os_C)"
  shows "rng_ok RM g' \<and> (\<forall>x\<in>set (concat os_P'). Fin 0 \<le> x \<and> x < T) \<and>
         length (concat os_P') = length (concat os_C')"
  using assms
proof (induction ps arbitrary: g os_P os_C)
  case Nil
  then show ?case by simp
next
  case (Cons pc rest)
  obtain p ci where pc: "pc = (p, ci)" by (cases pc)
  from Cons.prems(1) pc obtain Acp where Acp: "np_row A ci = Inr Acp"
    by (auto split: sum.splits)
  obtain tres cres g1 where off: "get_mv_offspring RM g p Acp (Fin th) T = ((tres, cres), g1)"
    by (metis prod.collapse)
  from Cons.prems(1) pc Acp off
  have rec: "generation RM A (Fin th) T rest g1 (os_P @ [tres], os_C @ [cres]) = Inr ((os_P', os_C'), g')"
    by simp
  from Cons.prems(4) pc have p: "Fin 0 \<le> p" by simp
  have g1: "rng_ok RM g1" using offspring_rng_ok[OF Cons.prems(2), of p Acp "Fin th" T] off by simp
  have tres: "\<forall>x\<in>set tres. Fin 0 \<le> x \<and> x < T"
    using offspring_window[OF Cons.prems(2,3) p, of _ Acp T] off by simp
  have len: "length tres = length cres"
    using offspring_length[of RM g p Acp "Fin th" T] off by simp
  show ?case
  proof (rule Cons.IH[OF rec g1 Cons.prems(3)])
    show "\<forall>x\<in>set rest. Fin 0 \<le> fst x" using Cons.prems(4) by simp
    show "\<forall>x\<in>set (concat (os_P @ [tres])). Fin 0 \<le> x \<and> x < T"
      using Cons.prems(5) tres by auto
    show "length (concat (os_P @ [tres])) = length (concat (os_C @ [cres]))"
      using Cons.prems(6) len by simp
  qed
qed

lemma immigrants_inv:
  assumes "immigrants (Fin Tr) mu ks g (cP, cC) = ((cP', cC'), g')"
    and "rng_ok RM g" "0 < Tr"
    and "\<forall>x\<in>set cP. Fin 0 \<le> x \<and> x < Fin Tr" "length cP = length cC"
  shows "rng_ok RM g' \<and> (\<forall>x\<in>set cP'. Fin 0 \<le> x \<and> x < Fin Tr) \<and> length cP' = length cC'"
  using assms
proof (induction ks arbitrary: g cP cC)
  case Nil
  then show ?case by simp
next
  case (Cons k ks)
  let ?n = "pois g 0 (mu ! k * Fin Tr)"
  let ?g2 = "g\<lparr>pois := \<lambda>n. pois g (Suc n), unif := \<lambda>i. unif g (?n + i)\<rparr>"
  let ?Pk0 = "map (\<lambda>x. x * Fin Tr) (map (\<lambda>i. Fin (unif g i)) [0..<?n])"
  from Cons.prems(1) have rec: "immigrants (Fin Tr) mu ks ?g2 (cP @ ?Pk0, cC @ replicate (length ?Pk0) (int k)) = ((cP', cC'), g')"
    by (simp add: np_random_poisson_def np_random_rand_def Let_def)
  have g2: "rng_ok RM ?g2" using Cons.prems(2) by (simp add: rng_ok_def)
  have u: "0 \<le> unif g i \<and> unif g i < 1" for i using Cons.prems(2) by (simp add: rng_ok_def)
  have Pk0: "\<forall>x\<in>set ?Pk0. Fin 0 \<le> x \<and> x < Fin Tr"
    using u Cons.prems(3) by (auto simp: less_eq_double_def less_double_def)
  show ?case
  proof (rule Cons.IH[OF rec g2 Cons.prems(3)])
    show "\<forall>x\<in>set (cP @ ?Pk0). Fin 0 \<le> x \<and> x < Fin Tr" using Cons.prems(4) Pk0 by auto
    show "length (cP @ ?Pk0) = length (cC @ replicate (length ?Pk0) (int k))"
      using Cons.prems(5) by simp
  qed
qed

lemma branching_loop_inv:
  assumes "branching_loop RM A theta T P C cP cC g = Some r"
  shows "\<forall>th P' C' g'. theta = Fin th \<and> 0 < th \<and> r = Inr ((P', C'), g') \<and> rng_ok RM g \<and>
           (\<forall>x\<in>set P. Fin 0 \<le> x \<and> x < T) \<and> (\<forall>x\<in>set cP. Fin 0 \<le> x \<and> x < T) \<and>
           length P = length C \<and> length cP = length cC \<longrightarrow>
           (\<forall>x\<in>set P'. Fin 0 \<le> x \<and> x < T) \<and> length P' = length C'"
proof -
  let ?Q = "\<lambda>((((((((RM, A), theta), T), P), C), cP), cC), g) r.
      \<forall>th P' C' g'. theta = Fin th \<and> 0 < th \<and> r = Inr ((P', C'), g') \<and> rng_ok RM g \<and>
           (\<forall>x\<in>set P. Fin 0 \<le> x \<and> x < T) \<and> (\<forall>x\<in>set cP. Fin 0 \<le> x \<and> x < T) \<and>
           length P = length C \<and> length cP = length cC \<longrightarrow>
           (\<forall>x\<in>set P'. Fin 0 \<le> x \<and> x < T) \<and> length P' = length (C'::int list)"
  have "?Q ((((((((RM, A), theta), T), P), C), cP), cC), g) r"
  proof (rule branching_loop.raw_induct[where Pa = ?Q, OF _ assms])
    fix loop RM A theta T P C cP cC g r
    assume IH: "\<And>x1 x2 x3 x4 x5 x6 x7 x8 x9 y. loop x1 x2 x3 x4 x5 x6 x7 x8 x9 = Some y \<Longrightarrow>
        ?Q ((((((((x1, x2), x3), x4), x5), x6), x7), x8), x9) y"
      and body: "(if 0 < length cP then
          (case generation RM A theta T (zip cP cC) g ([], []) of
             Inl e \<Rightarrow> Some (Inl e)
           | Inr ((os_P, os_C), g') \<Rightarrow>
               loop RM A theta T (P @ cP) (C @ cC) (concat os_P) (concat os_C) g')
        else Some (Inr ((P, C), g))) = Some r"
    have step: "(\<forall>x\<in>set P'. Fin 0 \<le> x \<and> x < T) \<and> length P' = length C'"
      if h: "theta = Fin th" "0 < th" "r = Inr ((P', C'), g')" "rng_ok RM g"
        "\<forall>x\<in>set P. Fin 0 \<le> x \<and> x < T" "\<forall>x\<in>set cP. Fin 0 \<le> x \<and> x < T"
        "length P = length C" "length cP = length cC" for th P' C' g'
    proof (cases "0 < length cP")
      case False
      with body h show ?thesis by simp
    next
      case True
      with body h(3) obtain os_P os_C g1 where
        gen: "generation RM A theta T (zip cP cC) g ([], []) = Inr ((os_P, os_C), g1)"
        and rec: "loop RM A theta T (P @ cP) (C @ cC) (concat os_P) (concat os_C) g1 = Some r"
        by (auto split: sum.splits)
      have "\<forall>x\<in>set (zip cP cC). Fin 0 \<le> fst x"
        using h(6) by (auto dest: set_zip_leftD)
      from generation_inv[OF gen[unfolded h(1)] h(4) h(2) this]
      have g1: "rng_ok RM g1" "\<forall>x\<in>set (concat os_P). Fin 0 \<le> x \<and> x < T"
        "length (concat os_P) = length (concat os_C)" by simp_all
      have pre: "\<forall>x\<in>set (P @ cP). Fin 0 \<le> x \<and> x < T" "length (P @ cP) = length (C @ cC)"
        using h(5-8) by auto
      from IH[OF rec] have "?Q ((((((((RM, A), theta), T), P @ cP), C @ cC), concat os_P), concat os_C), g1) r" .
      then show ?thesis using h(1-3) g1 pre by simp
    qed
    show "?Q ((((((((RM, A), theta), T), P), C), cP), cC), g) r"
      unfolding split_conv
    proof (intro allI impI)
      fix th P' C' g'
      assume "theta = Fin th \<and> 0 < th \<and> r = Inr ((P', C'), g') \<and> rng_ok RM g \<and>
           (\<forall>x\<in>set P. Fin 0 \<le> x \<and> x < T) \<and> (\<forall>x\<in>set cP. Fin 0 \<le> x \<and> x < T) \<and>
           length P = length C \<and> length cP = length cC"
      then show "(\<forall>x\<in>set P'. Fin 0 \<le> x \<and> x < T) \<and> length P' = length C'"
        by (elim conjE) (rule step; assumption)
    qed
  qed
  then show ?thesis unfolding split_conv .
qed

section \<open>The stable sort of the realization\<close>

lemma np_key_inj: "np_key x = np_key y \<longleftrightarrow> x = y"
  by (cases x; cases y) (simp_all add: np_key_def)

lemma window_finite:
  assumes "Fin 0 \<le> x" "x < Fin Tr"
  obtains a where "x = Fin a"
  using assms by (cases x) (simp_all add: less_eq_double_def less_double_def)

lemma np_key_le_window:
  assumes "Fin 0 \<le> x" "x < Fin Tr" "Fin 0 \<le> y" "y < Fin Tr" "np_key x \<le> np_key y"
  shows "x \<le> y"
proof -
  from assms(1,2) obtain a where a: "x = Fin a" by (rule window_finite)
  from assms(3,4) obtain b where b: "y = Fin b" by (rule window_finite)
  from assms(5) show ?thesis unfolding a b
    by (simp add: np_key_def less_eq_double_def less_eq_prod_def)
qed

lemma set_np_take_argsort: "set (np_take P (np_argsort P)) = set P"
  by (simp add: np_take_def np_argsort_def nth_image)

lemma zip_np_take:
  "zip (np_take P six) (np_take C six) = map (\<lambda>i. (P ! i, C ! i)) six"
  by (induction six) (simp_all add: np_take_def)

lemma zip_as_map_nth:
  assumes "length P = length C"
  shows "zip P C = map (\<lambda>i. (P ! i, C ! i)) [0..<length P]"
  using assms by (intro nth_equalityI) simp_all

lemma argsort_sorted:
  assumes "\<forall>x\<in>set P. Fin 0 \<le> x \<and> x < Fin Tr"
  shows "sorted_wrt (\<le>) (np_take P (np_argsort P))"
proof -
  let ?six = "np_argsort P"
  have "sorted (map (\<lambda>i. np_key (P ! i)) ?six)"
    unfolding np_argsort_def by (rule sorted_sort_key)
  then have "sorted_wrt (\<lambda>i j. np_key (P ! i) \<le> np_key (P ! j)) ?six"
    by (simp add: sorted_map)
  moreover have "P ! i \<le> P ! j"
    if "i \<in> set ?six" "j \<in> set ?six" "np_key (P ! i) \<le> np_key (P ! j)" for i j
  proof -
    from that(1,2) have "P ! i \<in> set P" "P ! j \<in> set P" by (simp_all add: np_argsort_def)
    with assms have "Fin 0 \<le> P ! i" "P ! i < Fin Tr" "Fin 0 \<le> P ! j" "P ! j < Fin Tr"
      by blast+
    from np_key_le_window[OF this that(3)] show ?thesis .
  qed
  ultimately have "sorted_wrt (\<lambda>i j. P ! i \<le> P ! j) ?six"
    by (rule sorted_wrt_mono_rel[rotated])
  then show ?thesis by (simp add: np_take_def sorted_wrt_map)
qed

lemma argsort_stable:
  assumes "length P = length C"
  shows "filter (\<lambda>(p, k). p = v) (zip (np_take P (np_argsort P)) (np_take C (np_argsort P))) =
         filter (\<lambda>(p, k). p = v) (zip P C)"
proof -
  have "filter (\<lambda>i. np_key (P ! i) = np_key v) (np_argsort P) =
        filter (\<lambda>i. np_key (P ! i) = np_key v) [0..<length P]"
    unfolding np_argsort_def by (rule sort_key_stable)
  then have "filter (\<lambda>i. P ! i = v) (np_argsort P) = filter (\<lambda>i. P ! i = v) [0..<length P]"
    by (simp only: np_key_inj)
  then have m: "map (\<lambda>i. (P ! i, C ! i)) (filter (\<lambda>i. P ! i = v) (np_argsort P)) =
             map (\<lambda>i. (P ! i, C ! i)) (filter (\<lambda>i. P ! i = v) [0..<length P])"
    by (rule arg_cong)
  have f: "filter (\<lambda>(p, k). p = v) (map (\<lambda>i. (P ! i, C ! i)) xs) =
           map (\<lambda>i. (P ! i, C ! i)) (filter (\<lambda>i. P ! i = v) xs)" for xs
    by (induction xs) simp_all
  show ?thesis
    unfolding zip_np_take zip_as_map_nth[OF assms] f by (rule m)
qed

text \<open>
  Claim C9. When \<open>mv_exp_sample_branching\<close> returns (for \<open>T > 0\<close>, \<open>theta > 0\<close> and
  sources within their ranges), the times it returns are in non-decreasing order, every
  time is in \<open>[0, T)\<close>, and the events of equal time are in the order in which the
  generations produced them in \<open>P\<close> and \<open>C\<close>: the sort is stable, so the order of ties is a
  function of the values drawn.
\<close>

theorem simulate_sorted_in_window_stable:
  assumes "rng_ok RM g" "0 < Tr" "0 < th"
    and run: "mv_exp_sample_branching RM g (Fin Tr) mu A (Fin th) = Some (Inr ((Ps, Cs), g'))"
  shows "sorted_wrt (\<le>) Ps \<and> (\<forall>x\<in>set Ps. Fin 0 \<le> x \<and> x < Fin Tr) \<and>
         (\<exists>P C. all_generations RM g (Fin Tr) mu A (Fin th) = Some (Inr ((P, C), g')) \<and>
                (\<forall>v. filter (\<lambda>(p, k). p = v) (zip Ps Cs) = filter (\<lambda>(p, k). p = v) (zip P C)))"
proof -
  from run obtain P C where gens: "all_generations RM g (Fin Tr) mu A (Fin th) = Some (Inr ((P, C), g'))"
    and Ps: "Ps = np_take P (np_argsort P)" and Cs: "Cs = np_take C (np_argsort P)"
    by (auto simp: mv_exp_sample_branching_def Let_def split: option.splits sum.splits)
  obtain cP cC g1 where imm: "immigrants (Fin Tr) mu [0..<length mu] g ([], []) = ((cP, cC), g1)"
    by (metis prod.collapse)
  from immigrants_inv[OF imm assms(1,2)]
  have g1: "rng_ok RM g1" "\<forall>x\<in>set cP. Fin 0 \<le> x \<and> x < Fin Tr" "length cP = length cC"
    by simp_all
  from gens imm have loop: "branching_loop RM A (Fin th) (Fin Tr) [] [] cP cC g1 = Some (Inr ((P, C), g'))"
    by (simp add: all_generations_def Let_def)
  from branching_loop_inv[OF loop] assms(3) g1
  have P: "\<forall>x\<in>set P. Fin 0 \<le> x \<and> x < Fin Tr" "length P = length C" by simp_all
  have "sorted_wrt (\<le>) Ps" unfolding Ps by (rule argsort_sorted[OF P(1)])
  moreover have "\<forall>x\<in>set Ps. Fin 0 \<le> x \<and> x < Fin Tr"
    unfolding Ps set_np_take_argsort by (rule P(1))
  moreover have "\<forall>v. filter (\<lambda>(p, k). p = v) (zip Ps Cs) = filter (\<lambda>(p, k). p = v) (zip P C)"
    unfolding Ps Cs using argsort_stable[OF P(2)] by blast
  ultimately show ?thesis using gens by blast
qed

theorem simulate_sorted_in_window_stable_witness:
  "rng_ok 32767 \<lparr>pois = \<lambda>n lam. if n < 2 then 1 else 0, unif = \<lambda>n. 1 / 2, crand = \<lambda>n. 0\<rparr> \<and>
   (0::real) < 4 \<and> (0::real) < 1 \<and>
   mv_exp_sample_branching 32767
     \<lparr>pois = \<lambda>n lam. if n < 2 then 1 else 0, unif = \<lambda>n. 1 / 2, crand = \<lambda>n. 0\<rparr>
     (Fin 4) [Fin 1, Fin 1] [[Fin 1, Fin 1], [Fin 1, Fin 1]] (Fin 1) =
     Some (Inr (([Fin 2, Fin 2], [0, 1]), \<lparr>pois = \<lambda>n lam. 0, unif = \<lambda>n. 1 / 2, crand = \<lambda>n. 0\<rparr>)) \<and>
   sorted_wrt (\<le>) [Fin 2, Fin 2] \<and> Fin 0 \<le> Fin 2 \<and> Fin 2 < Fin 4"
proof -
  let ?g = "\<lparr>pois = \<lambda>n lam. if n < 2 then 1 else 0, unif = \<lambda>n. 1 / 2, crand = \<lambda>n. 0\<rparr>"
  let ?g1 = "\<lparr>pois = \<lambda>n lam. 0, unif = \<lambda>n. 1 / 2, crand = \<lambda>n. 0\<rparr>"
  let ?mu = "[Fin 1, Fin 1]" and ?A = "[[Fin 1, Fin 1], [Fin 1, Fin 1]]"
  have ok: "rng_ok 32767 ?g" by (simp add: rng_ok_def)
  have imm: "immigrants (Fin 4) ?mu [0..<length ?mu] ?g ([], []) = (([Fin 2, Fin 2], [0, 1]), ?g1)"
    by (simp add: np_random_poisson_def np_random_rand_def Let_def upt_rec[of 0 "Suc _"])
  have gen: "generation 32767 ?A (Fin 1) (Fin 4) (zip [Fin 2, Fin 2] [0, 1]) ?g1 ([], []) =
      Inr (([[], []], [[], []]), ?g1)"
    by (simp add: np_row_def get_mv_offspring_eq candidates_def n_children_def)
  have loop_end: "branching_loop 32767 ?A (Fin 1) (Fin 4) [Fin 2, Fin 2] [0, 1] [] [] ?g1 =
      Some (Inr (([Fin 2, Fin 2], [0, 1]), ?g1))"
    by (subst branching_loop.simps) simp
  have loop: "branching_loop 32767 ?A (Fin 1) (Fin 4) [] [] [Fin 2, Fin 2] [0, 1] ?g1 =
      Some (Inr (([Fin 2, Fin 2], [0, 1]), ?g1))"
    by (subst branching_loop.simps) (simp add: gen[simplified] loop_end)
  have gens: "all_generations 32767 ?g (Fin 4) ?mu ?A (Fin 1) = Some (Inr (([Fin 2, Fin 2], [0, 1]), ?g1))"
    unfolding all_generations_def Let_def imm by (simp add: loop)
  have six: "np_argsort [Fin 2, Fin 2] = [0, 1]"
    by (simp add: np_argsort_def np_key_def upt_rec[of 0 "Suc _"])
  have run: "mv_exp_sample_branching 32767 ?g (Fin 4) ?mu ?A (Fin 1) =
      Some (Inr (([Fin 2, Fin 2], [0, 1]), ?g1))"
    unfolding mv_exp_sample_branching_def gens by (simp add: six np_take_def)
  from simulate_sorted_in_window_stable[OF ok _ _ run]
  have "sorted_wrt (\<le>) [Fin 2, Fin 2] \<and> (\<forall>x\<in>set [Fin 2, Fin 2]. Fin 0 \<le> x \<and> x < Fin 4)"
    by simp
  with ok run show ?thesis by simp
qed

section \<open>The pass and the recursion of the specification\<close>

text \<open>
  When the shapes fit and \<open>mu\<close> has as many entries as there are distinct marks, that is
  when every process has an event, the pass of \<open>mv_exp_ll\<close> is the recursion of the
  specification, step by step.
\<close>

lemma decay_loop_append:
  "decay_loop A theta dt ci (xs @ ys) s =
     (case decay_loop A theta dt ci xs s of Inl e \<Rightarrow> Inl e | Inr s' \<Rightarrow> decay_loop A theta dt ci ys s')"
  by (induction xs arbitrary: s) (auto simp: Let_def)

lemma map_upt_update:
  assumes "n < K"
  shows "(map (\<lambda>k. if k < n then f k else h k) [0..<K])[n := f n] =
         map (\<lambda>k. if k < Suc n then f k else h k) [0..<K]"
  using assms by (intro nth_equalityI) (auto simp: nth_list_update less_Suc_eq)

lemma decay_loop_prefix:
  assumes "n \<le> K" "length (d s) = K" "length (phi s) = K" "length (ed s) = K" "K \<le> length A"
    and "\<forall>k<K. in_bounds ci (length (A ! k))"
  shows "decay_loop A theta dt ci [0..<n] s =
     Inr (s\<lparr>d := map (\<lambda>k. if k < n then d s ! k + dt else d s ! k) [0..<K],
            ed := map (\<lambda>k. if k < n then dexp (- theta * (d s ! k + dt)) else ed s ! k) [0..<K],
            phi := map (\<lambda>k. if k < n then dexp (- theta * (d s ! k + dt)) * (1 + phi s ! k)
                              else phi s ! k) [0..<K],
            dot := dot s + (\<Sum>k<n. A ! k ! nat ci * (dexp (- theta * (d s ! k + dt)) * (1 + phi s ! k)))\<rparr>)"
  using assms(1)
proof (induction n)
  case 0
  have "map (\<lambda>k. xs ! k) [0..<K] = xs" if "length xs = K" for xs :: "double list"
    using that map_nth[of xs] by simp
  with assms(2-4) show ?case by (simp add: double_add_zero)
next
  case (Suc n)
  then have n: "n < K" "n \<le> K" by simp_all
  with assms(5,6) have A: "n < length A" "in_bounds ci (length (A ! n))" by simp_all
  show ?case
    unfolding upt_Suc_append[OF le0] decay_loop_append Suc.IH[OF n(2)]
    using n(1) A
    by (simp add: Let_def add.assoc
        map_upt_update[OF n(1), of "\<lambda>k. d s ! k + dt" "\<lambda>k. d s ! k"]
        map_upt_update[OF n(1), of "\<lambda>k. dexp (- theta * (d s ! k + dt))" "\<lambda>k. ed s ! k"]
        map_upt_update[OF n(1), of "\<lambda>k. dexp (- theta * (d s ! k + dt)) * (1 + phi s ! k)"
          "\<lambda>k. phi s ! k"]
        del: Fin_arith)
qed


lemma map_upt_all: "map (\<lambda>k. if k < K then f k else h k) [0..<K] = map f [0..<K]"
  by (rule map_cong) simp_all

lemma decay_loop_spec:
  assumes "length (d s) = K" "length (phi s) = K" "length (ed s) = K" "K \<le> length A"
    and "\<forall>k<K. in_bounds ci (length (A ! k))"
  shows "decay_loop A theta dt ci [0..<K] (s\<lparr>dot := 0\<rparr>) =
     Inr (s\<lparr>d := map (\<lambda>k. d s ! k + dt) [0..<K],
            ed := map (\<lambda>k. dexp (- theta * (d s ! k + dt))) [0..<K],
            phi := map (\<lambda>k. dexp (- theta * (d s ! k + dt)) * (1 + phi s ! k)) [0..<K],
            dot := \<Sum>k<K. A ! k ! nat ci * (dexp (- theta * (d s ! k + dt)) * (1 + phi s ! k))\<rparr>)"
  using decay_loop_prefix[of K K "s\<lparr>dot := 0\<rparr>" A ci theta dt] assms
  by (simp add: map_upt_all del: Fin_arith)

lemma event_step_spec:
  assumes "length (d s) = K" "length (phi s) = K" "length (ed s) = K" "K \<le> length A"
    and "\<forall>k<K. in_bounds (c ! i) (length (A ! k))"
    and "i < length c" "in_bounds (c ! i) K" "in_bounds (c ! i) (length mu)"
  shows "event_step t c mu A theta T K i s = Inr (spec_step t c mu A theta T K s i)"
  unfolding event_step_def spec_step_def
  using assms(6-8)
  by (simp add: decay_loop_spec[OF assms(1-5)] Let_def del: Fin_arith)

lemma spec_step_lengths:
  assumes "length (F s) = K"
  shows "length (d (spec_step t c mu A theta T K s i)) = K"
    "length (phi (spec_step t c mu A theta T K s i)) = K"
    "length (ed (spec_step t c mu A theta T K s i)) = K"
    "length (F (spec_step t c mu A theta T K s i)) = K"
  using assms by (simp_all add: spec_step_def Let_def)

lemma event_loop_spec:
  assumes "length (d s) = K" "length (phi s) = K" "length (ed s) = K" "length (F s) = K"
    and "K \<le> length A"
    and "\<forall>i\<in>set js. i < length c \<and> in_bounds (c ! i) K \<and> in_bounds (c ! i) (length mu) \<and>
           (\<forall>k<K. in_bounds (c ! i) (length (A ! k)))"
  shows "event_loop t c mu A theta T K js s = Inr (foldl (spec_step t c mu A theta T K) s js)"
  using assms
proof (induction js arbitrary: s)
  case Nil
  then show ?case by simp
next
  case (Cons i js)
  from Cons.prems(6) have i: "\<forall>k<K. in_bounds (c ! i) (length (A ! k))"
    "i < length c" "in_bounds (c ! i) K" "in_bounds (c ! i) (length mu)" by simp_all
  have step: "event_step t c mu A theta T K i s = Inr (spec_step t c mu A theta T K s i)"
    by (rule event_step_spec[OF Cons.prems(1-3,5) i])
  have "event_loop t c mu A theta T K js (spec_step t c mu A theta T K s i) =
      Inr (foldl (spec_step t c mu A theta T K) (spec_step t c mu A theta T K s i) js)"
    using Cons.prems(5,6) by (intro Cons.IH spec_step_lengths[OF Cons.prems(4)]) simp_all
  with step show ?case by simp
qed

lemma first_event_spec:
  assumes "t \<noteq> []" "c \<noteq> []" "in_bounds (c ! 0) K" "in_bounds (c ! 0) (length mu)"
  shows "first_event t c mu theta T (ll_init K) = Inr (spec_first t c mu theta T K)"
proof -
  from assms(3) have "nat (c ! 0) < K" by (simp add: in_bounds_def nat_less_iff)
  with assms show ?thesis
    by (simp add: first_event_def spec_first_def ll_init_def Let_def del: Fin_arith)
qed

lemma pass_is_spec_recursion:
  assumes "shapes_ok t c mu A" "length mu = length (remdups c)"
  shows "ll_pass t c mu A theta T = Inr (spec_pass t c mu A theta T)"
proof -
  let ?K = "length (remdups c)"
  from assms(1) have sh: "t \<noteq> []" "length t \<le> length c"
    "\<forall>i<length t. in_bounds (c ! i) ?K \<and> in_bounds (c ! i) (length mu)"
    "length A = ?K" "\<forall>r\<in>set A. length r = ?K"
    by (simp_all add: shapes_ok_def Let_def)
  then have c: "c \<noteq> []" by auto
  from sh(1,3) have c0: "in_bounds (c ! 0) ?K" "in_bounds (c ! 0) (length mu)" by auto
  have first: "first_event t c mu theta T (ll_init ?K) = Inr (spec_first t c mu theta T ?K)"
    by (rule first_event_spec[OF sh(1) c c0])
  have js: "\<forall>i\<in>set [1..<length t]. i < length c \<and> in_bounds (c ! i) ?K \<and>
      in_bounds (c ! i) (length mu) \<and> (\<forall>k<?K. in_bounds (c ! i) (length (A ! k)))"
    using sh by (auto simp: in_bounds_def)
  have "event_loop t c mu A theta T ?K [1..<length t] (spec_first t c mu theta T ?K) =
      Inr (foldl (spec_step t c mu A theta T ?K) (spec_first t c mu theta T ?K) [1..<length t])"
    using sh(4) by (intro event_loop_spec js) (simp_all add: spec_first_def Let_def)
  with first show ?thesis
    by (simp add: ll_pass_def ll_events_def spec_pass_def assms(2) Let_def)
qed

end
